theory Spec2Isabelle
  imports Main
begin

section \<open>JSON values and JavaScript string primitives\<close>

text \<open>
  The converter works on the object that \<^verbatim>\<open>JSON.parse\<close> returns. A JSON object is an
  association list in the order in which JavaScript enumerates the object's own keys:
  \<^verbatim>\<open>Object.entries\<close>, \<^verbatim>\<open>JSON.stringify\<close> and the spread \<^verbatim>\<open>{...schema}\<close> all follow
  that order, which is the order of the document except that JavaScript puts keys
  that are array indices (\<^verbatim>\<open>"0"\<close>, \<^verbatim>\<open>"200"\<close>) first, in ascending order; the function
  \<open>JSON_parse\<close> below builds that list from the members of the document as they are
  written. Numbers are the integers that JavaScript prints in plain decimal; strings
  are lists of ASCII characters.

  The fields of a node are read at the types that \<^verbatim>\<open>interface JsonSchema\<close> declares
  (\<^verbatim>\<open>type?: string | string[]\<close>, \<^verbatim>\<open>properties?: Record<string, JsonSchema>\<close>, ...):
  a field that holds a JSON value of another kind than its declared type is read as
  absent, so the model follows the source on the nodes of that interface, which the
  predicate \<open>typed_schema\<close> below describes. On other values JavaScript coerces or
  throws a \<^verbatim>\<open>TypeError\<close>; they are outside the model.
\<close>

datatype json =
    JNull
  | JBool bool
  | JNum int
  | JStr string
  | JArr "json list"
  | JObj "(string \<times> json) list"

abbreviation dquote :: char where "dquote \<equiv> CHR 0x22"
abbreviation backslash :: char where "backslash \<equiv> CHR 0x5C"
abbreviation newline :: char where "newline \<equiv> CHR 0x0A"

text \<open>\<^verbatim>\<open>Array.prototype.join\<close> on a list of strings.\<close>

fun join :: "string \<Rightarrow> string list \<Rightarrow> string" where
  "join sep [] = []"
| "join sep [x] = x"
| "join sep (x # y # ys) = x @ sep @ join sep (y # ys)"

text \<open>
  \<^verbatim>\<open>String(n)\<close> for an integer \<open>n\<close>: plain decimal, with a sign when negative. This
  is what JavaScript prints for the safe integers, those of absolute value below
  \<open>2 ^ 53\<close>; a number beyond them is rounded to a double and printed from its shortest
  digits (\<^verbatim>\<open>1e+21\<close>), and has no counterpart here.
\<close>

definition safe_integer :: "int \<Rightarrow> bool" where
  "safe_integer n = (\<bar>n\<bar> < 9007199254740992)"

definition digit_char :: "nat \<Rightarrow> char" where
  "digit_char d = char_of (48 + d)"

fun nat_str :: "nat \<Rightarrow> string" where
  "nat_str n = (if n < 10 then [digit_char n] else nat_str (n div 10) @ [digit_char (n mod 10)])"

declare nat_str.simps [simp del]

definition num_str :: "int \<Rightarrow> string" where
  "num_str i = (if i < 0 then CHR ''-'' # nat_str (nat (- i)) else nat_str (nat i))"

text \<open>
  \<^verbatim>\<open>JSON.stringify\<close> of a string: double quotes around it, the quote and the backslash
  escaped with a backslash, the control characters below 0x20 written as
  \<^verbatim>\<open>\b \t \n \f \r\<close> or as a four-digit lower-case hexadecimal escape.
\<close>

definition hex_char :: "nat \<Rightarrow> char" where
  "hex_char d = (if d < 10 then char_of (48 + d) else char_of (87 + d))"

definition escape_char :: "char \<Rightarrow> string" where
  "escape_char c =
    (if c = dquote then [backslash, dquote]
     else if c = backslash then [backslash, backslash]
     else if c = CHR 0x08 then [backslash, CHR ''b'']
     else if c = CHR 0x09 then [backslash, CHR ''t'']
     else if c = CHR 0x0A then [backslash, CHR ''n'']
     else if c = CHR 0x0C then [backslash, CHR ''f'']
     else if c = CHR 0x0D then [backslash, CHR ''r'']
     else if of_char c < (32 :: nat) then
       [backslash, CHR ''u'', CHR ''0'', CHR ''0'',
        hex_char (of_char c div 16), hex_char (of_char c mod 16)]
     else [c])"

definition quote_str :: "string \<Rightarrow> string" where
  "quote_str s = dquote # concat (map escape_char s) @ [dquote]"

text \<open>\<^verbatim>\<open>JSON.stringify(value)\<close> with no indentation: the signature of a node.\<close>

fun stringify :: "json \<Rightarrow> string" where
  "stringify JNull = ''null''"
| "stringify (JBool b) = (if b then ''true'' else ''false'')"
| "stringify (JNum n) = num_str n"
| "stringify (JStr s) = quote_str s"
| "stringify (JArr xs) = ''['' @ join '','' (map stringify xs) @ '']''"
| "stringify (JObj kvs) =
     ''{'' @ join '','' (map (\<lambda>kv. quote_str (fst kv) @ '':'' @ stringify (snd kv)) kvs) @ ''}''"

text \<open>\<^verbatim>\<open>String.prototype.includes\<close>, \<^verbatim>\<open>startsWith\<close> and \<^verbatim>\<open>endsWith\<close>.\<close>

fun startsWith :: "string \<Rightarrow> string \<Rightarrow> bool" where
  "startsWith s [] = True"
| "startsWith [] (p # ps) = False"
| "startsWith (c # cs) (p # ps) = (c = p \<and> startsWith cs ps)"

fun str_includes :: "string \<Rightarrow> string \<Rightarrow> bool" where
  "str_includes [] sub = (sub = [])"
| "str_includes (c # cs) sub = (startsWith (c # cs) sub \<or> str_includes cs sub)"

definition endsWith :: "string \<Rightarrow> string \<Rightarrow> bool" where
  "endsWith s suf = startsWith (rev s) (rev suf)"

text \<open>
  \<^verbatim>\<open>toUpperCase\<close> and \<^verbatim>\<open>toLowerCase\<close> on ASCII text; JavaScript's case mappings and
  its \<^verbatim>\<open>\s\<close> reach beyond ASCII, where they have no counterpart here.
\<close>

definition ascii :: "string \<Rightarrow> bool" where
  "ascii s = list_all (\<lambda>c. of_char c < (128 :: nat)) s"

definition upper_char :: "char \<Rightarrow> char" where
  "upper_char c =
    (if (97 :: nat) \<le> of_char c \<and> of_char c \<le> (122 :: nat) then char_of (of_char c - (32 :: nat)) else c)"

definition lower_char :: "char \<Rightarrow> char" where
  "lower_char c =
    (if (65 :: nat) \<le> of_char c \<and> of_char c \<le> (90 :: nat) then char_of (of_char c + (32 :: nat)) else c)"

definition toUpperCase :: "string \<Rightarrow> string" where
  "toUpperCase s = map upper_char s"

definition toLowerCase :: "string \<Rightarrow> string" where
  "toLowerCase s = map lower_char s"

text \<open>
  \<^verbatim>\<open>String.prototype.split\<close> at every character that satisfies \<open>sep\<close>; the empty
  string splits into one empty piece, as in JavaScript.
\<close>

fun split_at :: "(char \<Rightarrow> bool) \<Rightarrow> string \<Rightarrow> string list" where
  "split_at sep [] = [[]]"
| "split_at sep (c # cs) =
     (if sep c then [] # split_at sep cs
      else (case split_at sep cs of w # ws \<Rightarrow> (c # w) # ws | [] \<Rightarrow> [[c]]))"

text \<open>
  \<^verbatim>\<open>String.prototype.replace(pat, by)\<close> with a string pattern: the first occurrence only.
\<close>

fun replace_first :: "string \<Rightarrow> string \<Rightarrow> string \<Rightarrow> string" where
  "replace_first [] pat rep = (if pat = [] then rep else [])"
| "replace_first (c # cs) pat rep =
     (if startsWith (c # cs) pat then rep @ drop (length pat) (c # cs)
      else c # replace_first cs pat rep)"

text \<open>
  \<^verbatim>\<open>Map.prototype.set\<close> on a map kept in insertion order: a key that is present keeps
  its place and takes the new value, a new key goes to the end. The object spread
  \<^verbatim>\<open>{...schema, type: t}\<close> writes its field the same way.
\<close>

fun map_set :: "'k \<Rightarrow> 'v \<Rightarrow> ('k \<times> 'v) list \<Rightarrow> ('k \<times> 'v) list" where
  "map_set k v [] = [(k, v)]"
| "map_set k v (e # m) = (if fst e = k then (k, v) # m else e # map_set k v m)"

section \<open>Schema nodes\<close>

text \<open>\<^verbatim>\<open>schema[key]\<close>: \<open>None\<close> stands for \<^verbatim>\<open>undefined\<close>.\<close>

definition get_field :: "json \<Rightarrow> string \<Rightarrow> json option" where
  "get_field sch k = (case sch of JObj kvs \<Rightarrow> map_of kvs k | _ \<Rightarrow> None)"

text \<open>\<^verbatim>\<open>schema.properties\<close> when it is a mapping, with its entries in order.\<close>

definition properties_of :: "json \<Rightarrow> (string \<times> json) list option" where
  "properties_of sch = (case get_field sch ''properties'' of Some (JObj ps) \<Rightarrow> Some ps | _ \<Rightarrow> None)"

text \<open>What JavaScript takes for true in a condition.\<close>

fun truthy :: "json \<Rightarrow> bool" where
  "truthy JNull = False"
| "truthy (JBool b) = b"
| "truthy (JNum n) = (n \<noteq> 0)"
| "truthy (JStr s) = (s \<noteq> [])"
| "truthy (JArr xs) = True"
| "truthy (JObj kvs) = True"

text \<open>
  \<^verbatim>\<open>schema.items\<close> when the test \<^verbatim>\<open>if (schema.items)\<close> succeeds: any value but
  \<^verbatim>\<open>null\<close>, \<^verbatim>\<open>false\<close>, \<^verbatim>\<open>0\<close> and the empty string. (An element schema that is not an
  object, such as \<^verbatim>\<open>true\<close>, has no fields: the translator falls through to
  \<^verbatim>\<open>z.any()\<close> on it, and the walker does nothing.)
\<close>

definition items_of :: "json \<Rightarrow> json option" where
  "items_of sch =
    (case get_field sch ''items'' of Some v \<Rightarrow> (if truthy v then Some v else None) | None \<Rightarrow> None)"

text \<open>\<^verbatim>\<open>schema.additionalProperties\<close> when it is a schema (\<^verbatim>\<open>typeof\<close> is \<^verbatim>\<open>'object'\<close>).\<close>

definition additional_schema :: "json \<Rightarrow> json option" where
  "additional_schema sch =
    (case get_field sch ''additionalProperties'' of Some (JObj kvs) \<Rightarrow> Some (JObj kvs) | _ \<Rightarrow> None)"

text \<open>\<^verbatim>\<open>schema.enum\<close> when it is a list.\<close>

definition enum_of :: "json \<Rightarrow> json list option" where
  "enum_of sch = (case get_field sch ''enum'' of Some (JArr vs) \<Rightarrow> Some vs | _ \<Rightarrow> None)"

text \<open>A string field that is truthy, that is, present and not empty.\<close>

definition truthy_string :: "json \<Rightarrow> string \<Rightarrow> string option" where
  "truthy_string sch k =
    (case get_field sch k of Some (JStr s) \<Rightarrow> (if s = [] then None else Some s) | _ \<Rightarrow> None)"

text \<open>A numeric field that is not \<^verbatim>\<open>undefined\<close>.\<close>

definition number_of :: "json \<Rightarrow> string \<Rightarrow> int option" where
  "number_of sch k = (case get_field sch k of Some (JNum n) \<Rightarrow> Some n | _ \<Rightarrow> None)"

text \<open>
  \<^verbatim>\<open>schema.required?.includes(key)\<close>: false when \<^verbatim>\<open>required\<close> is absent. On a node of
  the interface \<^verbatim>\<open>required\<close> is a list of names when it is present; on a string
  JavaScript would search a substring, on a number or \<^verbatim>\<open>true\<close> it throws.
\<close>

definition isRequired :: "json \<Rightarrow> string \<Rightarrow> bool" where
  "isRequired sch key =
    (case get_field sch ''required'' of Some (JArr rs) \<Rightarrow> JStr key \<in> set rs | _ \<Rightarrow> False)"

text \<open>
  The multi-type test of lines 98-101: \<^verbatim>\<open>Array.isArray(schema.type)\<close>,
  \<^verbatim>\<open>types.includes('null')\<close> and \<^verbatim>\<open>types.filter(t => t !== 'null')\<close>. When the type is
  not an array there are no tags.
\<close>

definition type_tags :: "json \<Rightarrow> json list" where
  "type_tags sch = (case get_field sch ''type'' of Some (JArr ts) \<Rightarrow> ts | _ \<Rightarrow> [])"

definition hasNull :: "json \<Rightarrow> bool" where
  "hasNull sch = (JStr ''null'' \<in> set (type_tags sch))"

definition nonNullTypes :: "json \<Rightarrow> json list" where
  "nonNullTypes sch = filter (\<lambda>t. t \<noteq> JStr ''null'') (type_tags sch)"

text \<open>\<^verbatim>\<open>{ ...schema, type: t }\<close>.\<close>

definition with_type :: "json \<Rightarrow> json \<Rightarrow> json" where
  "with_type sch t = (case sch of JObj kvs \<Rightarrow> JObj (map_set ''type'' t kvs) | _ \<Rightarrow> sch)"

section \<open>Name generator\<close>

text \<open>
  \<^verbatim>\<open>toPascalCase\<close> splits at runs of underscores, white space and hyphens; splitting at
  every such character instead only adds empty words, which the final
  \<^verbatim>\<open>join('')\<close> drops.
\<close>

definition is_word_sep :: "char \<Rightarrow> bool" where
  "is_word_sep c =
    (c = CHR ''_'' \<or> c = CHR ''-'' \<or> c = CHR '' '' \<or> c = CHR 0x09 \<or> c = CHR 0x0A \<or>
     c = CHR 0x0B \<or> c = CHR 0x0C \<or> c = CHR 0x0D)"

definition capitalize :: "string \<Rightarrow> string" where
  "capitalize word = toUpperCase (take 1 word) @ toLowerCase (drop 1 word)"

definition toPascalCase :: "string \<Rightarrow> string" where
  "toPascalCase str = concat (map capitalize (split_at is_word_sep str))"

definition is_letter :: "char \<Rightarrow> bool" where
  "is_letter c =
    (((97 :: nat) \<le> of_char c \<and> of_char c \<le> (122 :: nat)) \<or>
     ((65 :: nat) \<le> of_char c \<and> of_char c \<le> (90 :: nat)))"

definition is_digit :: "char \<Rightarrow> bool" where
  "is_digit c = ((48 :: nat) \<le> of_char c \<and> of_char c \<le> (57 :: nat))"

definition ident_start :: "char \<Rightarrow> bool" where
  "ident_start c = (is_letter c \<or> c = CHR ''_'' \<or> c = CHR ''$'')"

definition ident_part :: "char \<Rightarrow> bool" where
  "ident_part c = (ident_start c \<or> is_digit c)"

text \<open>The test of the regular expression \<^verbatim>\<open>^[a-zA-Z_$][a-zA-Z0-9_$]*$\<close>.\<close>

definition isValidIdentifier :: "string \<Rightarrow> bool" where
  "isValidIdentifier nm = (case nm of [] \<Rightarrow> False | c # cs \<Rightarrow> ident_start c \<and> list_all ident_part cs)"

definition formatPropertyName :: "string \<Rightarrow> string" where
  "formatPropertyName nm = (if isValidIdentifier nm then nm else stringify (JStr nm))"

definition is_dot :: "char \<Rightarrow> bool" where
  "is_dot c = (c = CHR ''.'')"

definition generateSchemaName :: "string \<Rightarrow> string" where
  "generateSchemaName pathStr =
    (let parts = filter (\<lambda>p. p \<noteq> [] \<and> p \<noteq> ''items'' \<and> p \<noteq> ''properties'')
                   (split_at is_dot pathStr)
     in if length parts = 0 then ''Schema'' else toPascalCase (last parts) @ ''Schema'')"

section \<open>Objects as JSON.parse builds them\<close>

text \<open>
  JavaScript enumerates the own keys of an object with the array indices first, in
  ascending numeric order, then the other keys in the order in which they were created.
  An array index is the canonical decimal text of an integer from 0 to \<open>2 ^ 32 - 2\<close>:
  \<^verbatim>\<open>"0"\<close>, \<^verbatim>\<open>"2"\<close>, \<^verbatim>\<open>"10"\<close>, but not \<^verbatim>\<open>"-1"\<close>, \<^verbatim>\<open>"01"\<close> or \<^verbatim>\<open>"1st"\<close>.
\<close>

definition index_value :: "string \<Rightarrow> int" where
  "index_value k = foldl (\<lambda>n c. 10 * n + (of_char c - 48)) 0 k"

definition is_array_index :: "string \<Rightarrow> bool" where
  "is_array_index k \<longleftrightarrow>
     k \<noteq> [] \<and> list_all is_digit k \<and> (k = ''0'' \<or> hd k \<noteq> CHR ''0'') \<and>
     index_value k < 4294967295"

definition own_property_order :: "(string \<times> 'a) list \<Rightarrow> (string \<times> 'a) list" where
  "own_property_order kvs =
     sort_key (\<lambda>kv. index_value (fst kv)) (filter (\<lambda>kv. is_array_index (fst kv)) kvs) @
     filter (\<lambda>kv. \<not> is_array_index (fst kv)) kvs"

text \<open>
  \<^verbatim>\<open>JSON.parse\<close>, from the document as it is written (the members of an object in the
  order of the text) to the object the converter works on: a member is stored with
  \<^verbatim>\<open>CreateDataProperty\<close>, so a repeated key keeps its first place and takes the last
  value, and the keys are then enumerated in the order above.
\<close>

fun JSON_parse :: "json \<Rightarrow> json" where
  "JSON_parse (JObj kvs) =
     JObj (own_property_order (fold (\<lambda>kv. map_set (fst kv) (JSON_parse (snd kv))) kvs []))"
| "JSON_parse (JArr xs) = JArr (map JSON_parse xs)"
| "JSON_parse v = v"

text \<open>
  A value as \<^verbatim>\<open>JSON.parse\<close> returns it, within the model: the keys of every object
  pairwise different and in the order of enumeration, every number a safe integer.
\<close>

fun js_value :: "json \<Rightarrow> bool" where
  "js_value (JNum n) = safe_integer n"
| "js_value (JArr xs) = list_all js_value xs"
| "js_value (JObj kvs) =
     (distinct (map fst kvs) \<and> own_property_order kvs = kvs \<and>
      list_all (\<lambda>kv. js_value (snd kv)) kvs)"
| "js_value v = True"

section \<open>Sizes of the nodes below a node\<close>

text \<open>
  Every recursive call of the walker and of the translator is on a node that is smaller
  than the node at hand: a property, the element schema, the additional-properties
  schema, or the node itself with its list of type tags replaced by one of the tags.
  (The input is a parsed document, a finite tree.)
\<close>

lemma size_map_of: "map_of kvs k = Some v \<Longrightarrow> size v < size (JObj kvs)"
  by (induction kvs) (auto split: if_splits)

lemma size_get_field: "get_field sch k = Some v \<Longrightarrow> size v < size sch"
  by (cases sch) (auto simp: get_field_def dest: size_map_of)

lemma size_member: "x \<in> set xs \<Longrightarrow> size x < size (JArr xs)"
  by (induction xs) auto

lemma size_entry: "kv \<in> set ps \<Longrightarrow> size (snd kv) < size (JObj ps)"
  by (induction ps) auto

lemma size_property:
  "properties_of sch = Some ps \<Longrightarrow> kv \<in> set ps \<Longrightarrow> size (snd kv) < size sch"
  by (auto simp: properties_of_def split: option.splits json.splits
        dest!: size_get_field size_entry)

lemma size_items: "items_of sch = Some v \<Longrightarrow> size v < size sch"
  by (auto simp: items_of_def split: option.splits if_splits dest!: size_get_field)

lemma size_additional: "additional_schema sch = Some v \<Longrightarrow> size v < size sch"
  by (auto simp: additional_schema_def split: option.splits json.splits dest!: size_get_field)

lemma size_map_set:
  "map_of kvs k = Some v \<Longrightarrow> size t < size v \<Longrightarrow>
   size (JObj (map_set k t kvs)) < size (JObj kvs)"
  by (induction kvs) (auto split: if_splits)

lemma size_with_type: "t \<in> set (nonNullTypes sch) \<Longrightarrow> size (with_type sch t) < size sch"
proof -
  assume t: "t \<in> set (nonNullTypes sch)"
  then obtain kvs ts where sch: "sch = JObj kvs"
    and ty: "map_of kvs ''type'' = Some (JArr ts)" and mem: "t \<in> set ts"
    by (cases sch)
       (auto simp: nonNullTypes_def type_tags_def get_field_def
             split: option.splits json.splits dest: sym)
  from size_map_set [OF ty size_member [OF mem]] show ?thesis
    by (simp add: sch with_type_def)
qed

section \<open>Schema walker\<close>

record SubSchema =
  name :: string
  schema :: json
  path :: string

text \<open>
  The discovery map and the processed registry are \<^verbatim>\<open>Map<string, SubSchema>\<close>: entries
  in insertion order, keyed by signature.
\<close>

type_synonym registry = "(string \<times> SubSchema) list"

text \<open>
  Lines 61-69 of \<^verbatim>\<open>findSubSchemas\<close>: what one visit of an object node with properties
  does to the discovery map and to the visited set.
\<close>

definition register :: "json \<Rightarrow> string \<Rightarrow> registry \<times> string set \<Rightarrow> registry \<times> string set" where
  "register sch currentPath st =
    (let subSchemas = fst st; visited = snd st; schemaStr = stringify sch in
     if schemaStr \<notin> visited \<and> str_includes currentPath ''.'' then
       (let nm = generateSchemaName currentPath in
        if \<not> list_ex (\<lambda>s. name s = nm) (map snd subSchemas)
        then (map_set schemaStr \<lparr>name = nm, schema = sch, path = currentPath\<rparr> subSchemas,
              insert schemaStr visited)
        else st)
     else st)"

text \<open>
  \<^verbatim>\<open>findSubSchemas(schema, subSchemas, currentPath, visited)\<close>; the two mutable
  arguments are the state, passed in and returned.
\<close>

function findSubSchemas :: "json \<Rightarrow> string \<Rightarrow> registry \<times> string set \<Rightarrow> registry \<times> string set" where
  "findSubSchemas sch currentPath st =
    (if get_field sch ''type'' = Some (JStr ''object'') \<and> properties_of sch \<noteq> None then
       fold (\<lambda>kv. findSubSchemas (snd kv) (currentPath @ ''.'' @ fst kv))
            (the (properties_of sch)) (register sch currentPath st)
     else if get_field sch ''type'' = Some (JStr ''array'') \<and> items_of sch \<noteq> None then
       findSubSchemas (the (items_of sch)) (currentPath @ ''.items'') st
     else st)"
  by pat_completeness auto
termination
proof (relation "measure (\<lambda>(sch, p, st). size sch)", goal_cases)
  case 1
  show ?case by simp
next
  case (2 sch currentPath st kv)
  then show ?case by (auto dest: size_property)
next
  case (3 sch currentPath st)
  then show ?case by (auto dest: size_items)
qed

declare findSubSchemas.simps [simp del]

text \<open>
  The visits of the walk, in its order: the object-typed nodes with a properties mapping
  that \<^verbatim>\<open>findSubSchemas\<close> is called on, each with the path of the call. It follows the
  recursion of the walker and leaves the state out.
\<close>

function visits :: "json \<Rightarrow> string \<Rightarrow> (json \<times> string) list" where
  "visits sch currentPath =
    (if get_field sch ''type'' = Some (JStr ''object'') \<and> properties_of sch \<noteq> None then
       (sch, currentPath) #
       concat (map (\<lambda>kv. visits (snd kv) (currentPath @ ''.'' @ fst kv)) (the (properties_of sch)))
     else if get_field sch ''type'' = Some (JStr ''array'') \<and> items_of sch \<noteq> None then
       visits (the (items_of sch)) (currentPath @ ''.items'')
     else [])"
  by pat_completeness auto
termination
proof (relation "measure (\<lambda>(sch, p). size sch)", goal_cases)
  case 1
  show ?case by simp
next
  case (2 sch currentPath kv)
  then show ?case by (auto dest: size_property)
next
  case (3 sch currentPath)
  then show ?case by (auto dest: size_items)
qed

declare visits.simps [simp del]

section \<open>Translator\<close>

text \<open>\<^verbatim>\<open>if (schema.description) ... += `.describe(${JSON.stringify(schema.description)})`\<close>.\<close>

definition describe_suffix :: "json \<Rightarrow> string" where
  "describe_suffix sch =
    (case truthy_string sch ''description'' of
       Some d \<Rightarrow> ''.describe('' @ stringify (JStr d) @ '')''
     | None \<Rightarrow> [])"

text \<open>The test on the lower-cased field name of lines 144-147.\<close>

definition matches_uuid_name :: "string \<Rightarrow> bool" where
  "matches_uuid_name fieldName =
    (toLowerCase fieldName = ''uuid'' \<or>
     endsWith (toLowerCase fieldName) ''_id'' \<or>
     str_includes (toLowerCase fieldName) ''uuid'' \<or>
     str_includes (toLowerCase fieldName) ''guid'')"

text \<open>The \<^verbatim>\<open>case 'string'\<close> branch, lines 136-160.\<close>

definition string_validator :: "json \<Rightarrow> string option \<Rightarrow> string" where
  "string_validator sch fieldName =
    ''z.string()'' @
    (case truthy_string sch ''pattern'' of
       Some p \<Rightarrow>
         (if str_includes p ''[0-9a-fA-F]{8}'' then ''.uuid()''
          else ''.regex(/'' @ p @ ''/)'')
     | None \<Rightarrow>
         (case fieldName of
            Some f \<Rightarrow> (if f \<noteq> [] \<and> matches_uuid_name f then ''.uuid()'' else [])
          | None \<Rightarrow> [])) @
    (if get_field sch ''format'' = Some (JStr ''date-time'') then ''.datetime()'' else []) @
    describe_suffix sch"

text \<open>The \<^verbatim>\<open>case 'number': case 'integer'\<close> branch, lines 164-174.\<close>

definition number_validator :: "json \<Rightarrow> string" where
  "number_validator sch =
    (if get_field sch ''type'' = Some (JStr ''integer'') then ''z.number().int()'' else ''z.number()'') @
    (case number_of sch ''minimum'' of Some n \<Rightarrow> ''.min('' @ num_str n @ '')'' | None \<Rightarrow> []) @
    (case number_of sch ''maximum'' of Some n \<Rightarrow> ''.max('' @ num_str n @ '')'' | None \<Rightarrow> []) @
    describe_suffix sch"

text \<open>The length constraints of an array validator, lines 189-198.\<close>

definition array_bounds :: "json \<Rightarrow> string" where
  "array_bounds sch =
    (if number_of sch ''minItems'' \<noteq> None \<and> number_of sch ''maxItems'' \<noteq> None \<and>
        number_of sch ''minItems'' = number_of sch ''maxItems''
     then ''.length('' @ num_str (the (number_of sch ''minItems'')) @ '')''
     else
       (case number_of sch ''minItems'' of Some n \<Rightarrow> ''.min('' @ num_str n @ '')'' | None \<Rightarrow> []) @
       (case number_of sch ''maxItems'' of Some n \<Rightarrow> ''.max('' @ num_str n @ '')'' | None \<Rightarrow> []))"

text \<open>Lines 211-212: \<^verbatim>\<open>const optional = isRequired ? '' : '.optional()'\<close>.\<close>

definition optional_marker :: "json \<Rightarrow> string \<Rightarrow> string" where
  "optional_marker sch key = (if isRequired sch key then [] else ''.optional()'')"

text \<open>
  Lines 88-95: the name bound to a signature in the map the translator was given, if a
  map was given and the signature is one of its keys.
\<close>

definition registry_name :: "registry option \<Rightarrow> string \<Rightarrow> string option" where
  "registry_name subSchemas schemaStr =
    (case subSchemas of
       Some m \<Rightarrow> map_option name (map_of m schemaStr)
     | None \<Rightarrow> None)"

text \<open>
  \<^verbatim>\<open>jsonSchemaToZod(schema, depth, subSchemas, fieldName)\<close>, in the order of the source.
  The source throws a \<^verbatim>\<open>TypeError\<close> where it reads a field of \<^verbatim>\<open>null\<close> (a \<^verbatim>\<open>null\<close> among the
  properties, say); the function follows it on the nodes of the interface, which hold no
  such value (\<open>schema_node\<close> below).
\<close>

function jsonSchemaToZod :: "json \<Rightarrow> nat \<Rightarrow> registry option \<Rightarrow> string option \<Rightarrow> string" where
  "jsonSchemaToZod sch depth subSchemas fieldName =
    (let indent = concat (replicate depth ''  '') in
     if registry_name subSchemas (stringify sch) \<noteq> None then
       the (registry_name subSchemas (stringify sch))
     else if length (nonNullTypes sch) = 1 \<and> hasNull sch then
       jsonSchemaToZod (with_type sch (hd (nonNullTypes sch))) depth subSchemas fieldName @
       ''.nullable()''
     else if length (nonNullTypes sch) > 1 then
       ''z.union(['' @
       join '', '' (map (\<lambda>t. jsonSchemaToZod (with_type sch t) depth subSchemas fieldName)
                      (nonNullTypes sch)) @
       ''])'' @
       (if hasNull sch then ''.nullable()'' else []) @
       describe_suffix sch
     else if enum_of sch \<noteq> None then
       ''z.enum(['' @ join '', '' (map stringify (the (enum_of sch))) @ ''])'' @ describe_suffix sch
     else if get_field sch ''type'' = Some (JStr ''string'') then string_validator sch fieldName
     else if get_field sch ''type'' = Some (JStr ''number'') \<or>
             get_field sch ''type'' = Some (JStr ''integer'') then number_validator sch
     else if get_field sch ''type'' = Some (JStr ''boolean'') then ''z.boolean()'' @ describe_suffix sch
     else if get_field sch ''type'' = Some (JStr ''null'') then ''z.null()''
     else if get_field sch ''type'' = Some (JStr ''array'') then
       (if items_of sch \<noteq> None then
          ''z.array('' @ jsonSchemaToZod (the (items_of sch)) depth subSchemas None @ '')'' @
          array_bounds sch @ describe_suffix sch
        else ''z.array(z.any())'')
     else if get_field sch ''type'' = Some (JStr ''object'') then
       (if properties_of sch \<noteq> None then
          ''z.object({'' @ [newline] @
          join ('','' @ [newline])
            (map (\<lambda>kv. indent @ ''  '' @ formatPropertyName (fst kv) @ '': '' @
                        jsonSchemaToZod (snd kv) (depth + 1) subSchemas (Some (fst kv)) @
                        optional_marker sch (fst kv))
                 (the (properties_of sch))) @
          [newline] @ indent @ ''})'' @ describe_suffix sch
        else if additional_schema sch \<noteq> None then
          ''z.record('' @ jsonSchemaToZod (the (additional_schema sch)) depth subSchemas None @ '')''
        else if get_field sch ''additionalProperties'' = Some (JBool True) then
          ''z.record(z.string())''
        else ''z.object({})'')
     else ''z.any()'')"
  by pat_completeness auto
termination
proof (relation "measure (\<lambda>(sch, d, r, f). size sch)", goal_cases)
  case 1
  show ?case by simp
next
  case (2 sch depth subSchemas fieldName indent)
  then have "hd (nonNullTypes sch) \<in> set (nonNullTypes sch)"
    by (cases "nonNullTypes sch") auto
  then show ?case by (simp add: size_with_type)
next
  case (3 sch depth subSchemas fieldName indent t)
  then show ?case by (simp add: size_with_type)
next
  case (4 sch depth subSchemas fieldName indent)
  then show ?case by (auto dest: size_items)
next
  case (5 sch depth subSchemas fieldName indent kv)
  then show ?case by (auto dest: size_property)
next
  case (6 sch depth subSchemas fieldName indent)
  then show ?case by (auto dest: size_additional)
qed

declare jsonSchemaToZod.simps [simp del]

section \<open>Nodes of the interface\<close>

definition is_string :: "json \<Rightarrow> bool" where
  "is_string v = (case v of JStr s \<Rightarrow> True | _ \<Rightarrow> False)"

definition is_safe_number :: "json \<Rightarrow> bool" where
  "is_safe_number v = (case v of JNum n \<Rightarrow> safe_integer n | _ \<Rightarrow> False)"

text \<open>
  \<^verbatim>\<open>interface JsonSchema\<close>: an object whose known fields, where present, have the declared
  types, the nodes below it included. Property names are ASCII (they are lower-cased
  and turned into names). The element schema may also be a value that is not an
  object: the source only tests it for truth.
\<close>

definition optional_string :: "json \<Rightarrow> string \<Rightarrow> bool" where
  "optional_string sch k = (case get_field sch k of None \<Rightarrow> True | Some v \<Rightarrow> is_string v)"

definition optional_number :: "json \<Rightarrow> string \<Rightarrow> bool" where
  "optional_number sch k = (case get_field sch k of None \<Rightarrow> True | Some v \<Rightarrow> is_safe_number v)"

function typed_schema :: "json \<Rightarrow> bool" where
  "typed_schema sch =
    ((case sch of JObj kvs \<Rightarrow> True | _ \<Rightarrow> False) \<and>
     (case get_field sch ''type'' of
        None \<Rightarrow> True
      | Some (JStr t) \<Rightarrow> True
      | Some (JArr ts) \<Rightarrow> list_all is_string ts
      | Some _ \<Rightarrow> False) \<and>
     (case get_field sch ''properties'' of
        None \<Rightarrow> True
      | Some (JObj ps) \<Rightarrow> list_all (\<lambda>p. ascii (fst p) \<and> typed_schema (snd p)) ps
      | Some _ \<Rightarrow> False) \<and>
     (case get_field sch ''items'' of
        Some (JObj fs) \<Rightarrow> typed_schema (JObj fs)
      | _ \<Rightarrow> True) \<and>
     (case get_field sch ''required'' of
        None \<Rightarrow> True
      | Some (JArr rs) \<Rightarrow> list_all is_string rs
      | Some _ \<Rightarrow> False) \<and>
     (case get_field sch ''enum'' of
        None \<Rightarrow> True
      | Some (JArr vs) \<Rightarrow> True
      | Some _ \<Rightarrow> False) \<and>
     optional_string sch ''pattern'' \<and>
     optional_string sch ''format'' \<and>
     optional_string sch ''description'' \<and>
     optional_number sch ''minimum'' \<and>
     optional_number sch ''maximum'' \<and>
     optional_number sch ''minItems'' \<and>
     optional_number sch ''maxItems'' \<and>
     (case get_field sch ''additionalProperties'' of
        None \<Rightarrow> True
      | Some (JBool b) \<Rightarrow> True
      | Some (JObj fs) \<Rightarrow> typed_schema (JObj fs)
      | Some _ \<Rightarrow> False))"
  by pat_completeness auto
termination
proof (relation "measure size", goal_cases)
  case 1
  show ?case by simp
next
  case (2 sch v ps p)
  then have "size (JObj ps) < size sch" and "size (snd p) < size (JObj ps)"
    using size_get_field [of sch "''properties''" "JObj ps"] size_entry [of p ps] by auto
  then show ?case by simp
next
  case (3 sch v fs)
  then show ?case using size_get_field [of sch "''items''" "JObj fs"] by auto
next
  case (4 sch v fs)
  then show ?case using size_get_field [of sch "''additionalProperties''" "JObj fs"] by auto
qed

declare typed_schema.simps [simp del]

text \<open>A node of the interface, as \<^verbatim>\<open>JSON.parse\<close> returns it.\<close>

definition schema_node :: "json \<Rightarrow> bool" where
  "schema_node sch \<longleftrightarrow> js_value sch \<and> typed_schema sch"

section \<open>Emitter\<close>

text \<open>\<^verbatim>\<open>path.split('.').length\<close>, the depth measure of the sort.\<close>

definition path_depth :: "string \<Rightarrow> nat" where
  "path_depth p = length (split_at is_dot p)"

text \<open>
  Lines 249-254: \<^verbatim>\<open>Array.prototype.sort\<close> is stable, and the comparator
  \<^verbatim>\<open>depthB - depthA\<close> puts the deeper path first.
\<close>

definition sortSubSchemas :: "registry \<Rightarrow> registry" where
  "sortSubSchemas subSchemas = sort_key (\<lambda>e. - int (path_depth (path (snd e)))) subSchemas"

text \<open>
  One turn of the loop of lines 259-263, on the pair of \<^verbatim>\<open>subSchemaCode\<close> and
  \<^verbatim>\<open>processedSchemas\<close>.
\<close>

definition declare_step :: "string \<times> SubSchema \<Rightarrow> string \<times> registry \<Rightarrow> string \<times> registry" where
  "declare_step e acc =
    (let zodCode = jsonSchemaToZod (schema (snd e)) 0 (Some (snd acc)) None in
     (fst acc @ ''const '' @ name (snd e) @ '' = '' @ zodCode @ '';'' @ [newline, newline],
      map_set (fst e) (snd e) (snd acc)))"

definition discovered :: "json \<Rightarrow> registry" where
  "discovered jsonSchema = fst (findSubSchemas jsonSchema [] ([], {}))"

definition declared :: "json \<Rightarrow> string \<times> registry" where
  "declared jsonSchema = fold declare_step (sortSubSchemas (discovered jsonSchema)) ([], [])"

definition type_export :: "SubSchema \<Rightarrow> string" where
  "type_export s =
    ''export type '' @ replace_first (name s) ''Schema'' [] @ '' = z.infer<typeof '' @ name s @ ''>;''"




section \<open>A run, with the sort taken by its contract\<close>

text \<open>
  What \<^verbatim>\<open>Array.prototype.sort\<close> promises for the comparator of lines 250-254, whatever
  algorithm the engine uses: in the result no entry stands before a deeper one, and the
  entries of each depth are those of the input, in the order of the input (the sort is
  stable).
\<close>

definition entry_depth :: "string \<times> SubSchema \<Rightarrow> nat" where
  "entry_depth e = path_depth (path (snd e))"


text \<open>
  The same contract without the promise of stability: the result holds the entries of
  the input, no entry before a deeper one.
\<close>

definition unstable_sort_result :: "registry \<Rightarrow> registry \<Rightarrow> bool" where
  "unstable_sort_result entries result \<longleftrightarrow>
     sorted_wrt (\<lambda>a b. entry_depth b \<le> entry_depth a) result \<and>
     set result = set entries \<and> length result = length entries"

text \<open>Lines 256-279 for a given sorted list.\<close>

definition outputCode_from :: "string \<Rightarrow> json \<Rightarrow> registry \<Rightarrow> string" where
  "outputCode_from baseName jsonSchema sortedSubSchemas =
    (let subSchemaCode = fst (fold declare_step sortedSubSchemas ([], []));
         processedSchemas = snd (fold declare_step sortedSubSchemas ([], []));
         zodSchemaCode = jsonSchemaToZod jsonSchema 0 (Some processedSchemas) None;
         typeExports = join [newline] (map type_export (map snd processedSchemas))
     in ''import { z } from '' @ [CHR 0x27] @ ''zod'' @ [CHR 0x27] @ '';'' @ [newline, newline] @
        ''// Generated from: '' @ baseName @ [newline] @
        subSchemaCode @ ''export const schema = '' @ zodSchemaCode @ '';'' @ [newline, newline] @
        ''export type SchemaType = z.infer<typeof schema>;'' @ [newline] @
        (if typeExports \<noteq> [] then newline # typeExports else []) @ [newline])"



section \<open>Example nodes\<close>

text \<open>A node with two type tags and an enum list, and a registry that binds its signature.\<close>

definition bound_node :: json where
  "bound_node = JObj [(''type'', JArr [JStr ''string'', JStr ''null'']), (''enum'', JArr [JStr ''a''])]"

definition bound_entry :: SubSchema where
  "bound_entry = \<lparr>name = ''IdSchema'', schema = bound_node, path = ''.id''\<rparr>"

definition one_entry_registry :: registry where
  "one_entry_registry = [(stringify bound_node, bound_entry)]"

text \<open>\<^verbatim>\<open>{"type":"string","format":"date-time"}\<close>\<close>

definition datetime_node :: json where
  "datetime_node = JObj [(''type'', JStr ''string''), (''format'', JStr ''date-time'')]"

text \<open>
  \<^verbatim>\<open>{"type":"object","properties":{"uuid":{"type":"string"},"size":{"type":"integer"}},"required":["uuid"]}\<close>
\<close>

definition uuid_size_node :: json where
  "uuid_size_node = JObj [(''type'', JStr ''object''),
     (''properties'', JObj [(''uuid'', JObj [(''type'', JStr ''string'')]),
                            (''size'', JObj [(''type'', JStr ''integer'')])]),
     (''required'', JArr [JStr ''uuid''])]"

text \<open>\<^verbatim>\<open>{"type":"array","items":{"type":"integer"},"minItems":3,"maxItems":3}\<close>\<close>

definition three_integers :: json where
  "three_integers = JObj [(''type'', JStr ''array''), (''items'', JObj [(''type'', JStr ''integer'')]),
     (''minItems'', JNum 3), (''maxItems'', JNum 3)]"

text \<open>\<^verbatim>\<open>{"type":"array","items":{"type":"integer"},"minItems":1,"maxItems":5}\<close>\<close>

definition one_to_five_integers :: json where
  "one_to_five_integers = JObj [(''type'', JStr ''array''), (''items'', JObj [(''type'', JStr ''integer'')]),
     (''minItems'', JNum 1), (''maxItems'', JNum 5)]"

text \<open>\<^verbatim>\<open>{"type":["string","null"],"format":"date-time"}\<close>\<close>

definition nullable_datetime :: json where
  "nullable_datetime =
     JObj [(''type'', JArr [JStr ''string'', JStr ''null'']), (''format'', JStr ''date-time'')]"

text \<open>
  A document whose property names are written in the order \<^verbatim>\<open>a.b\<close>, \<^verbatim>\<open>7\<close>, \<^verbatim>\<open>$ok_1\<close>,
  \<^verbatim>\<open>1st\<close>, \<^verbatim>\<open>0\<close> and \<^verbatim>\<open>x-y\<close>.
\<close>

definition odd_names_members :: "(string \<times> json) list" where
  "odd_names_members =
     [(''a.b'', JObj [(''type'', JStr ''boolean'')]),
      (''7'', JObj [(''type'', JStr ''boolean'')]),
      (''$ok_1'', JObj [(''type'', JStr ''boolean'')]),
      (''1st'', JObj [(''type'', JStr ''boolean'')]),
      (''0'', JObj [(''type'', JStr ''boolean'')]),
      (''x-y'', JObj [(''type'', JStr ''boolean'')])]"

definition odd_names_doc :: json where
  "odd_names_doc = JObj [(''type'', JStr ''object''), (''properties'', JObj odd_names_members)]"

text \<open>\<^verbatim>\<open>{"type":"object","properties":{...}}\<close> with the given properties.\<close>

definition object_with :: "(string \<times> json) list \<Rightarrow> json" where
  "object_with ps = JObj [(''type'', JStr ''object''), (''properties'', JObj ps)]"

definition x_leaf :: json where
  "x_leaf = object_with [(''x'', JObj [(''type'', JStr ''string'')])]"

definition y_leaf :: json where
  "y_leaf = object_with [(''y'', JObj [(''type'', JStr ''number'')])]"

text \<open>
  Two different shapes under the same property name:
  \<^verbatim>\<open>{a: {left: {x: string}}, b: {left: {y: number}}}\<close>, every object written with its
  \<^verbatim>\<open>type\<close> and \<^verbatim>\<open>properties\<close>.
\<close>

definition collision_doc :: json where
  "collision_doc =
     object_with [(''a'', object_with [(''left'', x_leaf)]),
                  (''b'', object_with [(''left'', y_leaf)])]"

text \<open>The state of the walk over \<open>collision_doc\<close> when it arrives at \<^verbatim>\<open>.b.left\<close>.\<close>

definition before_b_left :: "registry \<times> string set" where
  "before_b_left =
     register (object_with [(''left'', y_leaf)]) ''.b''
       (findSubSchemas (object_with [(''left'', x_leaf)]) ''.a'' ([], {}))"

text \<open>
  One shape at \<^verbatim>\<open>.a\<close> and again, deeper, at \<^verbatim>\<open>.b.c.d\<close>; another shape twice under names
  whose candidate is \<^verbatim>\<open>ASchema\<close> as well:
  \<^verbatim>\<open>{a: X, b: {c: {d: X}}, e: {a: Y, A: Y}}\<close> with \<^verbatim>\<open>X = {x: string}\<close> and
  \<^verbatim>\<open>Y = {y: number}\<close>.
\<close>

definition reuse_doc :: json where
  "reuse_doc =
     object_with [(''a'', x_leaf),
                  (''b'', object_with [(''c'', object_with [(''d'', x_leaf)])]),
                  (''e'', object_with [(''a'', y_leaf), (''A'', y_leaf)])]"

text \<open>
  An object node with properties, a required list and an enum list:
  \<^verbatim>\<open>{"type":"object","properties":{"a":{"type":"string"}},"required":["a"],"enum":[1]}\<close>
\<close>

definition enum_object :: json where
  "enum_object = JObj [(''type'', JStr ''object''),
     (''properties'', JObj [(''a'', JObj [(''type'', JStr ''string'')])]),
     (''required'', JArr [JStr ''a'']),
     (''enum'', JArr [JNum 1])]"

text \<open>
  \<^verbatim>\<open>{"type":"array","items":{"type":"integer"},"minItems":2,"maxItems":2,"enum":[]}\<close>
\<close>

definition enum_array :: json where
  "enum_array = JObj [(''type'', JStr ''array''), (''items'', JObj [(''type'', JStr ''integer'')]),
     (''minItems'', JNum 2), (''maxItems'', JNum 2), (''enum'', JArr [])]"

text \<open>\<^verbatim>\<open>{"type":"array","items":true,"minItems":2,"maxItems":2}\<close>\<close>

definition two_of_anything :: json where
  "two_of_anything = JObj [(''type'', JStr ''array''), (''items'', JBool True),
     (''minItems'', JNum 2), (''maxItems'', JNum 2)]"

text \<open>\<^verbatim>\<open>{"type":"string","enum":["a","b"]}\<close>\<close>

definition enum_string :: json where
  "enum_string = JObj [(''type'', JStr ''string''), (''enum'', JArr [JStr ''a'', JStr ''b''])]"

text \<open>
  A document whose properties are written in the order \<^verbatim>\<open>b\<close>, \<^verbatim>\<open>10\<close>, \<^verbatim>\<open>2\<close>, \<^verbatim>\<open>-1\<close>:
  \<^verbatim>\<open>{"type":"object","properties":{"b":{"type":"boolean"},"10":{"type":"boolean"},"2":{"type":"boolean"},"-1":{"type":"boolean"}}}\<close>
\<close>

definition index_names_members :: "(string \<times> json) list" where
  "index_names_members =
     [(''b'', JObj [(''type'', JStr ''boolean'')]),
      (''10'', JObj [(''type'', JStr ''boolean'')]),
      (''2'', JObj [(''type'', JStr ''boolean'')]),
      (''-1'', JObj [(''type'', JStr ''boolean'')])]"

definition index_names_doc :: json where
  "index_names_doc = JObj [(''type'', JStr ''object''), (''properties'', JObj index_names_members)]"

text \<open>
  A shape that loses its first name and is registered later, at another path:
  \<^verbatim>\<open>{a: X, b: {a: Y}, c: {d: {e: Y}}}\<close> with \<^verbatim>\<open>X = {x: string}\<close> and \<^verbatim>\<open>Y = {y: number}\<close>.
\<close>

definition late_doc :: json where
  "late_doc =
     object_with [(''a'', x_leaf),
                  (''b'', object_with [(''a'', y_leaf)]),
                  (''c'', object_with [(''d'', object_with [(''e'', y_leaf)])])]"

section \<open>Sub-schema entries\<close>

text \<open>
  What the walker stores: an entry under the signature of its own node, the node
  object-typed with a properties mapping, met at a path of more than one segment, the
  name generated from that path.
\<close>

definition sub_schema_entry :: "string \<times> SubSchema \<Rightarrow> bool" where
  "sub_schema_entry e \<longleftrightarrow>
     fst e = stringify (schema (snd e)) \<and>
     get_field (schema (snd e)) ''type'' = Some (JStr ''object'') \<and>
     properties_of (schema (snd e)) \<noteq> None \<and>
     1 < path_depth (path (snd e)) \<and>
     name (snd e) = generateSchemaName (path (snd e))"

text \<open>A map of such entries, no two under the same signature.\<close>

definition sub_schema_entries :: "registry \<Rightarrow> bool" where
  "sub_schema_entries m \<longleftrightarrow> distinct (map fst m) \<and> list_all sub_schema_entry m"

text \<open>The optional registry argument of the translator: absent, or a map of such entries.\<close>

definition registry_ok :: "registry option \<Rightarrow> bool" where
  "registry_ok subSchemas = (case subSchemas of None \<Rightarrow> True | Some m \<Rightarrow> sub_schema_entries m)"

text \<open>
  For the proof that a signature determines its node: the text that may follow a
  serialized value inside a serialized array or object, and the kind of value that a
  first character announces.
\<close>

definition closes :: "string \<Rightarrow> bool" where
  "closes r = (case r of [] \<Rightarrow> True | c # _ \<Rightarrow> c = CHR '','' \<or> c = CHR '']'' \<or> c = CHR ''}'')"

datatype kind = KNull | KBool | KNum | KStr | KArr | KObj

fun kind_of :: "json \<Rightarrow> kind" where
  "kind_of JNull = KNull"
| "kind_of (JBool b) = KBool"
| "kind_of (JNum n) = KNum"
| "kind_of (JStr s) = KStr"
| "kind_of (JArr xs) = KArr"
| "kind_of (JObj kvs) = KObj"

definition kind_of_char :: "char \<Rightarrow> kind option" where
  "kind_of_char c =
    (if c = CHR ''n'' then Some KNull
     else if c = CHR ''t'' \<or> c = CHR ''f'' then Some KBool
     else if c = CHR ''-'' \<or> is_digit c then Some KNum
     else if c = dquote then Some KStr
     else if c = CHR ''['' then Some KArr
     else if c = CHR ''{'' then Some KObj
     else None)"

text \<open>
  For the proof that the walk leaves no visited node out. The state of the walk is
  kept with the visited set equal to the set of registered signatures. The entry that a
  visit stores when it registers, and what a visit leaves behind in any case: the
  signature of the node registered, or its candidate name carried by an entry.
\<close>

definition walk_state :: "registry \<times> string set \<Rightarrow> bool" where
  "walk_state st \<longleftrightarrow> snd st = fst ` set (fst st)"

definition entry_of :: "json \<times> string \<Rightarrow> string \<times> SubSchema" where
  "entry_of v =
     (stringify (fst v), \<lparr>name = generateSchemaName (snd v), schema = fst v, path = snd v\<rparr>)"

definition named_or_registered :: "json \<times> string \<Rightarrow> registry \<Rightarrow> bool" where
  "named_or_registered v m \<longleftrightarrow>
     stringify (fst v) \<in> fst ` set m \<or> generateSchemaName (snd v) \<in> (\<lambda>e. name (snd e)) ` set m"

definition walk_result ::
  "(json \<times> string) list \<Rightarrow> registry \<times> string set \<Rightarrow> registry \<times> string set \<Rightarrow> bool" where
  "walk_result V st st' \<longleftrightarrow>
     walk_state st' \<and> set (fst st) \<subseteq> set (fst st') \<and>
     (\<forall>v \<in> set V. 1 < path_depth (snd v) \<longrightarrow> named_or_registered v (fst st')) \<and>
     (\<forall>e \<in> set (fst st'). e \<in> set (fst st) \<or> (\<exists>v \<in> set V. 1 < path_depth (snd v) \<and> e = entry_of v))"

section \<open>What the string primitives compute\<close>

lemma startsWith_iff: "startsWith s p \<longleftrightarrow> (\<exists>r. s = p @ r)"
  by (induction s p rule: startsWith.induct) auto

lemma str_includes_iff: "str_includes s sub \<longleftrightarrow> (\<exists>a b. s = a @ sub @ b)"
proof (induction s)
  case Nil
  then show ?case by simp
next
  case (Cons c cs)
  have "(\<exists>a b. c # cs = a @ sub @ b) \<longleftrightarrow> (\<exists>b. c # cs = sub @ b) \<or> (\<exists>a b. cs = a @ sub @ b)"
  proof
    assume "\<exists>a b. c # cs = a @ sub @ b"
    then obtain a b where ab: "c # cs = a @ sub @ b"
      by blast
    show "(\<exists>b. c # cs = sub @ b) \<or> (\<exists>a b. cs = a @ sub @ b)"
    proof (cases a)
      case Nil
      with ab show ?thesis by auto
    next
      case (Cons x a')
      with ab have "cs = a' @ sub @ b" by simp
      then show ?thesis by blast
    qed
  next
    assume "(\<exists>b. c # cs = sub @ b) \<or> (\<exists>a b. cs = a @ sub @ b)"
    then show "\<exists>a b. c # cs = a @ sub @ b"
    proof
      assume "\<exists>b. c # cs = sub @ b"
      then obtain b where "c # cs = [] @ sub @ b" by auto
      then show ?thesis by blast
    next
      assume "\<exists>a b. cs = a @ sub @ b"
      then obtain a b where "c # cs = (c # a) @ sub @ b" by auto
      then show ?thesis by blast
    qed
  qed
  with Cons show ?case
    by (simp add: startsWith_iff)
qed

lemma endsWith_iff: "endsWith s suf \<longleftrightarrow> (\<exists>a. s = a @ suf)"
proof -
  have "(\<exists>r. rev s = rev suf @ r) \<longleftrightarrow> (\<exists>a. s = a @ suf)"
  proof
    assume "\<exists>r. rev s = rev suf @ r"
    then obtain r where "rev s = rev suf @ r" by blast
    then have "rev (rev s) = rev (rev suf @ r)" by simp
    then have "s = rev r @ suf" by simp
    then show "\<exists>a. s = a @ suf" by blast
  next
    assume "\<exists>a. s = a @ suf"
    then obtain a where "s = a @ suf" by blast
    then have "rev s = rev suf @ rev a" by simp
    then show "\<exists>r. rev s = rev suf @ r" by blast
  qed
  then show ?thesis
    by (simp add: endsWith_def startsWith_iff)
qed

text \<open>Lower-casing keeps the length and changes nothing but the letters A to Z.\<close>

lemma toLowerCase_length: "length (toLowerCase s) = length s"
  by (simp add: toLowerCase_def)

lemma lower_char_idem: "lower_char (lower_char c) = lower_char c"
  by (simp add: lower_char_def)

section \<open>The characters of an identifier\<close>

text \<open>
  The character classes of \<^verbatim>\<open>^[a-zA-Z_$][a-zA-Z0-9_$]*$\<close>, written out.
\<close>

lemma lower_letters: "map char_of [97..<123::nat] = ''abcdefghijklmnopqrstuvwxyz''"
  by code_simp

lemma upper_letters: "map char_of [65..<91::nat] = ''ABCDEFGHIJKLMNOPQRSTUVWXYZ''"
  by code_simp

lemma digits: "map char_of [48..<58::nat] = ''0123456789''"
  by code_simp

lemma in_range_char:
  fixes c :: char
  assumes "(lo :: nat) \<le> of_char c" and "of_char c < hi"
  shows "c \<in> set (map char_of [lo..<hi])"
proof -
  have "c = char_of (of_char c :: nat)" by simp
  moreover from assms have "(of_char c :: nat) \<in> set [lo..<hi]" by simp
  ultimately show ?thesis unfolding set_map by (rule image_eqI)
qed

lemma is_letter_iff:
  "is_letter c \<longleftrightarrow> c \<in> set ''abcdefghijklmnopqrstuvwxyzABCDEFGHIJKLMNOPQRSTUVWXYZ''"
proof
  assume "is_letter c"
  then have "c \<in> set (map char_of [97..<123::nat]) \<or> c \<in> set (map char_of [65..<91::nat])"
    using in_range_char [of 97 c 123] in_range_char [of 65 c 91] by (auto simp: is_letter_def)
  then show "c \<in> set ''abcdefghijklmnopqrstuvwxyzABCDEFGHIJKLMNOPQRSTUVWXYZ''"
    unfolding lower_letters upper_letters by auto
next
  assume "c \<in> set ''abcdefghijklmnopqrstuvwxyzABCDEFGHIJKLMNOPQRSTUVWXYZ''"
  then show "is_letter c"
    by (auto simp: is_letter_def)
qed

lemma is_digit_iff: "is_digit c \<longleftrightarrow> c \<in> set ''0123456789''"
proof
  assume "is_digit c"
  then have "c \<in> set (map char_of [48..<58::nat])"
    using in_range_char [of 48 c 58] by (auto simp: is_digit_def)
  then show "c \<in> set ''0123456789''"
    unfolding digits .
next
  assume "c \<in> set ''0123456789''"
  then show "is_digit c"
    by (auto simp: is_digit_def)
qed

lemma isValidIdentifier_iff:
  "isValidIdentifier nm \<longleftrightarrow>
     nm \<noteq> [] \<and>
     hd nm \<in> set ''abcdefghijklmnopqrstuvwxyzABCDEFGHIJKLMNOPQRSTUVWXYZ_$'' \<and>
     set (tl nm) \<subseteq> set ''abcdefghijklmnopqrstuvwxyzABCDEFGHIJKLMNOPQRSTUVWXYZ0123456789_$''"
proof -
  have s: "ident_start c \<longleftrightarrow> c \<in> set ''abcdefghijklmnopqrstuvwxyzABCDEFGHIJKLMNOPQRSTUVWXYZ_$''" for c
    unfolding ident_start_def is_letter_iff by auto
  have p: "ident_part c \<longleftrightarrow> c \<in> set ''abcdefghijklmnopqrstuvwxyzABCDEFGHIJKLMNOPQRSTUVWXYZ0123456789_$''" for c
    unfolding ident_part_def s is_digit_iff by auto
  show ?thesis
  proof (cases nm)
    case Nil
    then show ?thesis
      by (simp only: isValidIdentifier_def list.case simp_thms)
  next
    case (Cons c cs)
    have "isValidIdentifier nm \<longleftrightarrow> ident_start c \<and> (\<forall>x \<in> set cs. ident_part x)"
      by (simp only: Cons isValidIdentifier_def list.case list_all_iff)
    then show ?thesis
      by (simp only: s p Cons list.sel subset_iff list.distinct simp_thms Ball_def)
  qed
qed

section \<open>A signature determines its node\<close>

text \<open>
  Two nodes have the same serialized text only when they are the same value, key order
  included. The proof reads a serialized value off the front of a text: decimal numbers,
  escaped strings, and the members of arrays and objects one after the other.
\<close>

lemma digit_char_inj: "d < 10 \<Longrightarrow> e < 10 \<Longrightarrow> digit_char d = digit_char e \<Longrightarrow> d = e"
  by (simp add: digit_char_def char_of_eq_iff take_bit_eq_mod)

lemma digit_char_is_digit: "d < 10 \<Longrightarrow> is_digit (digit_char d)"
  by (simp add: digit_char_def is_digit_def)

lemma nat_str_digits: "list_all is_digit (nat_str n)"
  by (induction n rule: nat_str.induct) (subst nat_str.simps, simp add: digit_char_is_digit)

lemma nat_str_nonempty: "nat_str n \<noteq> []"
  by (subst nat_str.simps) simp

lemma nat_str_inj: "nat_str n = nat_str m \<Longrightarrow> n = m"
proof (induction n arbitrary: m rule: nat_str.induct)
  case (1 n)
  show ?case
  proof (cases "n < 10")
    case True
    then have n: "nat_str n = [digit_char n]"
      by (subst nat_str.simps) simp
    show ?thesis
    proof (cases "m < 10")
      case m: True
      then have "nat_str m = [digit_char m]"
        by (subst nat_str.simps) simp
      with n "1.prems" True m show ?thesis
        by (auto dest: digit_char_inj)
    next
      case False
      then have "nat_str m = nat_str (m div 10) @ [digit_char (m mod 10)]"
        by (subst nat_str.simps) simp
      with n "1.prems" nat_str_nonempty [of "m div 10"] show ?thesis
        by (cases "nat_str (m div 10)") auto
    qed
  next
    case False
    then have n: "nat_str n = nat_str (n div 10) @ [digit_char (n mod 10)]"
      by (subst nat_str.simps) simp
    show ?thesis
    proof (cases "m < 10")
      case True
      then have "nat_str m = [digit_char m]"
        by (subst nat_str.simps) simp
      with n "1.prems" nat_str_nonempty [of "n div 10"] show ?thesis
        by (cases "nat_str (n div 10)") auto
    next
      case m: False
      then have "nat_str m = nat_str (m div 10) @ [digit_char (m mod 10)]"
        by (subst nat_str.simps) simp
      with n "1.prems" have a: "nat_str (n div 10) = nat_str (m div 10)"
        and b: "digit_char (n mod 10) = digit_char (m mod 10)"
        by auto
      from "1.IH" [OF False a] have "n div 10 = m div 10" .
      moreover from b have "n mod 10 = m mod 10"
        using digit_char_inj [of "n mod 10" "m mod 10"] by simp
      ultimately show ?thesis
        by (metis div_mult_mod_eq)
    qed
  qed
qed

lemma digit_run:
  assumes "list_all is_digit ds" "list_all is_digit es"
    and "ds @ r = es @ r'"
    and "r = [] \<or> \<not> is_digit (hd r)" "r' = [] \<or> \<not> is_digit (hd r')"
  shows "ds = es \<and> r = r'"
  using assms
proof (induction ds arbitrary: es)
  case Nil
  then show ?case by (cases es) auto
next
  case (Cons d ds)
  then show ?case by (cases es) auto
qed

lemma hex_char_inj: "d < 16 \<Longrightarrow> e < 16 \<Longrightarrow> hex_char d = hex_char e \<Longrightarrow> d = e"
  by (auto simp: hex_char_def char_of_eq_iff take_bit_eq_mod split: if_splits)

lemma escape_char_nonempty: "escape_char c \<noteq> []"
  by (simp add: escape_char_def)

lemma escape_char_not_quote: "hd (escape_char c) \<noteq> dquote"
  by (simp add: escape_char_def)

lemma escape_char_unique:
  "escape_char c @ X = escape_char c' @ X' \<Longrightarrow> c = c' \<and> X = X'"
proof -
  assume eq: "escape_char c @ X = escape_char c' @ X'"
  have u: "c = c'" if "of_char c < (32::nat)" "of_char c' < (32::nat)"
     "hex_char (of_char c div 16) = hex_char (of_char c' div 16)"
     "hex_char (of_char c mod 16) = hex_char (of_char c' mod 16)"
  proof -
    from that have "(of_char c :: nat) div 16 = of_char c' div 16" "(of_char c :: nat) mod 16 = of_char c' mod 16"
      by (auto intro!: hex_char_inj)
    then have "(of_char c :: nat) = of_char c'"
      by (metis div_mult_mod_eq)
    then show ?thesis by simp
  qed
  from eq show ?thesis
    by (auto simp: escape_char_def split: if_splits dest: u)
qed

lemma escaped_unique:
  "concat (map escape_char s) @ dquote # X = concat (map escape_char s') @ dquote # X' \<Longrightarrow>
   s = s' \<and> X = X'"
proof (induction s arbitrary: s')
  case Nil
  show ?case
  proof (cases s')
    case Nil
    with Nil.prems show ?thesis by simp
  next
    case (Cons c cs)
    with Nil.prems escape_char_not_quote [of c] escape_char_nonempty [of c] show ?thesis
      by (cases "escape_char c") auto
  qed
next
  case (Cons c cs)
  show ?case
  proof (cases s')
    case Nil
    with Cons.prems escape_char_not_quote [of c] escape_char_nonempty [of c] show ?thesis
      by (cases "escape_char c") auto
  next
    case (Cons c' cs')
    with Cons.prems have "escape_char c @ (concat (map escape_char cs) @ dquote # X) =
        escape_char c' @ (concat (map escape_char cs') @ dquote # X')"
      by simp
    from escape_char_unique [OF this] Cons.IH [of cs'] Cons show ?thesis
      by simp
  qed
qed

lemma quote_str_unique: "quote_str s @ X = quote_str s' @ X' \<Longrightarrow> s = s' \<and> X = X'"
  using escaped_unique [of s X s' X'] by (simp add: quote_str_def)


lemma is_digit_chars:
  "is_digit c \<Longrightarrow> c \<noteq> CHR ''n'' \<and> c \<noteq> CHR ''t'' \<and> c \<noteq> CHR ''f'' \<and> c \<noteq> CHR ''-'' \<and>
     c \<noteq> dquote \<and> c \<noteq> CHR ''['' \<and> c \<noteq> CHR ''{'' \<and>
     c \<noteq> CHR '','' \<and> c \<noteq> CHR '']'' \<and> c \<noteq> CHR ''}''"
  by (auto simp: is_digit_def)

lemma num_str_head: "\<exists>c cs. num_str n = c # cs \<and> (c = CHR ''-'' \<or> is_digit c)"
proof (cases "n < 0")
  case True
  then show ?thesis by (simp add: num_str_def)
next
  case False
  with nat_str_digits [of "nat n"] nat_str_nonempty [of "nat n"] show ?thesis
    by (cases "nat_str (nat n)") (auto simp: num_str_def)
qed

lemma stringify_head: "\<exists>c cs. stringify v = c # cs \<and> kind_of_char c = Some (kind_of v)"
proof (cases v)
  case JNull
  then show ?thesis by (simp add: kind_of_char_def)
next
  case (JBool b)
  then show ?thesis by (simp add: kind_of_char_def)
next
  case (JNum n)
  from num_str_head [of n] obtain c cs where "num_str n = c # cs" "c = CHR ''-'' \<or> is_digit c"
    by blast
  with JNum is_digit_chars [of c] show ?thesis
    by (auto simp: kind_of_char_def)
next
  case (JStr s)
  have "\<not> is_digit dquote" by (simp add: is_digit_def)
  with JStr show ?thesis by (simp add: kind_of_char_def quote_str_def)
next
  case (JArr xs)
  have "\<not> is_digit (CHR ''['')" by (simp add: is_digit_def)
  with JArr show ?thesis by (simp add: kind_of_char_def)
next
  case (JObj kvs)
  have "\<not> is_digit (CHR ''{'')" by (simp add: is_digit_def)
  with JObj show ?thesis by (simp add: kind_of_char_def)
qed

lemma kind_of_char_closing:
  "kind_of_char (CHR '','') = None" "kind_of_char (CHR '']'') = None" "kind_of_char (CHR ''}'') = None"
  by (simp_all add: kind_of_char_def is_digit_def)

lemma stringify_not_closing:
  assumes "stringify v @ X = c # Y"
  shows "c \<noteq> CHR '','' \<and> c \<noteq> CHR '']'' \<and> c \<noteq> CHR ''}''"
proof -
  from stringify_head [of v] obtain d ds where "stringify v = d # ds" "kind_of_char d = Some (kind_of v)"
    by blast
  with assms have "kind_of_char c = Some (kind_of v)" by simp
  with kind_of_char_closing show ?thesis by auto
qed

lemma same_kind:
  assumes "stringify a @ X = stringify b @ Y"
  shows "kind_of a = kind_of b"
proof -
  from stringify_head [of a] obtain c cs where a: "stringify a = c # cs" "kind_of_char c = Some (kind_of a)"
    by blast
  from stringify_head [of b] obtain d ds where b: "stringify b = d # ds" "kind_of_char d = Some (kind_of b)"
    by blast
  from assms a b show ?thesis by simp
qed

lemma closes_not_digit: "closes r \<Longrightarrow> r = [] \<or> \<not> is_digit (hd r)"
  by (cases r) (auto simp: closes_def is_digit_def)

lemma num_str_unique:
  assumes "closes R" "closes R'" "num_str n @ R = num_str m @ R'"
  shows "n = m \<and> R = R'"
proof -
  have run: "nat_str p @ R = nat_str q @ R' \<Longrightarrow> p = q \<and> R = R'" for p q
    using digit_run [OF nat_str_digits nat_str_digits _ closes_not_digit [OF assms(1)]
                        closes_not_digit [OF assms(2)], of p q]
    by (auto dest: nat_str_inj)
  have mixed: "CHR ''-'' # X \<noteq> nat_str q @ Y" for X q Y
    using nat_str_digits [of q] nat_str_nonempty [of q] is_digit_chars [of "CHR ''-''"]
    by (cases "nat_str q") auto
  show ?thesis
  proof (cases "n < 0")
    case n: True
    show ?thesis
    proof (cases "m < 0")
      case True
      with n assms(3) run [of "nat (- n)" "nat (- m)"] have "nat (- n) = nat (- m)" "R = R'"
        by (simp_all add: num_str_def)
      with n True show ?thesis
        by arith
    next
      case False
      with n assms(3) mixed [of "nat_str (nat (- n)) @ R" "nat m" R'] show ?thesis
        by (simp add: num_str_def)
    qed
  next
    case n: False
    show ?thesis
    proof (cases "m < 0")
      case True
      with n assms(3) mixed [of "nat_str (nat (- m)) @ R'" "nat n" R] show ?thesis
        by (simp add: num_str_def)
    next
      case False
      with n assms(3) run [of "nat n" "nat m"] have "nat n = nat m" "R = R'"
        by (simp_all add: num_str_def)
      with n False show ?thesis
        by arith
    qed
  qed
qed

lemma join_Cons: "join sep (x # xs) = x @ (if xs = [] then [] else sep @ join sep xs)"
  by (cases xs) auto

lemma seq_unique:
  fixes enc :: "'a \<Rightarrow> string"
  assumes elem: "\<And>x y R R'. x \<in> set xs \<Longrightarrow> closes R \<Longrightarrow> closes R' \<Longrightarrow>
                    enc x @ R = enc y @ R' \<Longrightarrow> x = y \<and> R = R'"
    and head: "\<And>x R c Y. enc x @ R = c # Y \<Longrightarrow> c \<noteq> CHR '','' \<and> c \<noteq> cl"
    and cl: "cl = CHR '']'' \<or> cl = CHR ''}''"
    and eq: "join '','' (map enc xs) @ cl # r = join '','' (map enc ys) @ cl # r'"
  shows "xs = ys \<and> r = r'"
  using elem eq
proof (induction xs arbitrary: ys)
  case Nil
  show ?case
  proof (cases ys)
    case Nil
    with Nil.prems show ?thesis by simp
  next
    case (Cons y ys')
    with Nil.prems(2) have "enc y @ ((if ys' = [] then [] else '','' @ join '','' (map enc ys')) @ cl # r') = cl # r"
      by (simp add: join_Cons)
    from head [OF this] show ?thesis by simp
  qed
next
  case (Cons x xs')
  show ?case
  proof (cases ys)
    case Nil
    with Cons.prems(2) have "enc x @ ((if xs' = [] then [] else '','' @ join '','' (map enc xs')) @ cl # r) = cl # r'"
      by (simp add: join_Cons)
    from head [OF this] show ?thesis by simp
  next
    case ys: (Cons y ys')
    let ?TX = "(if xs' = [] then [] else '','' @ join '','' (map enc xs')) @ cl # r"
    let ?TY = "(if ys' = [] then [] else '','' @ join '','' (map enc ys')) @ cl # r'"
    from Cons.prems(2) ys have e: "enc x @ ?TX = enc y @ ?TY"
      by (simp add: join_Cons)
    have "closes ?TX" "closes ?TY"
      using cl by (auto simp: closes_def)
    from Cons.prems(1) [OF _ this e] have xy: "x = y" and t: "?TX = ?TY"
      by simp_all
    show ?thesis
    proof (cases "xs' = []")
      case True
      with t cl have "ys' = []" "r = r'"
        by (auto split: if_splits)
      with True xy ys show ?thesis by simp
    next
      case False
      with t cl have ne: "ys' \<noteq> []"
        by (auto split: if_splits)
      with False t have j: "join '','' (map enc xs') @ cl # r = join '','' (map enc ys') @ cl # r'"
        by simp
      have "xs' = ys' \<and> r = r'"
      proof (rule Cons.IH [OF _ j])
        fix x' y' R R'
        assume "x' \<in> set xs'" "closes R" "closes R'" "enc x' @ R = enc y' @ R'"
        with Cons.prems(1) [of x' R R' y'] show "x' = y' \<and> R = R'"
          by simp
      qed
      with xy ys show ?thesis by simp
    qed
  qed
qed

lemma kind_cases:
  "kind_of b = KNull \<Longrightarrow> b = JNull"
  "kind_of b = KBool \<Longrightarrow> \<exists>x. b = JBool x"
  "kind_of b = KNum \<Longrightarrow> \<exists>x. b = JNum x"
  "kind_of b = KStr \<Longrightarrow> \<exists>x. b = JStr x"
  "kind_of b = KArr \<Longrightarrow> \<exists>x. b = JArr x"
  "kind_of b = KObj \<Longrightarrow> \<exists>x. b = JObj x"
  by (cases b; simp)+

lemma stringify_unique:
  "closes R \<Longrightarrow> closes R' \<Longrightarrow> stringify a @ R = stringify b @ R' \<Longrightarrow> a = b \<and> R = R'"
proof (induction a arbitrary: b R R')
  case JNull
  from same_kind [OF JNull.prems(3)] have "b = JNull"
    by (simp add: kind_cases)
  with JNull.prems show ?case by simp
next
  case (JBool x)
  from same_kind [OF JBool.prems(3)] obtain y where "b = JBool y"
    using kind_cases(2) [of b] by auto
  with JBool.prems show ?case by (auto split: if_splits)
next
  case (JNum n)
  from same_kind [OF JNum.prems(3)] obtain m where "b = JNum m"
    using kind_cases(3) [of b] by auto
  with JNum.prems num_str_unique [of R R' n m] show ?case by simp
next
  case (JStr s)
  from same_kind [OF JStr.prems(3)] obtain t where "b = JStr t"
    using kind_cases(4) [of b] by auto
  with JStr.prems quote_str_unique [of s R t R'] show ?case by simp
next
  case (JArr xs)
  from same_kind [OF JArr.prems(3)] obtain ys where b: "b = JArr ys"
    using kind_cases(5) [of b] by auto
  with JArr.prems(3) have eq: "join '','' (map stringify xs) @ CHR '']'' # R =
                                join '','' (map stringify ys) @ CHR '']'' # R'"
    by simp
  have "xs = ys \<and> R = R'"
  proof (rule seq_unique [where enc = stringify and cl = "CHR '']''", OF _ _ _ eq])
    fix x y Q Q'
    assume "x \<in> set xs" "closes Q" "closes Q'" "stringify x @ Q = stringify y @ Q'"
    then show "x = y \<and> Q = Q'" by (rule JArr.IH)
  next
    fix x Q c Y
    assume "stringify x @ Q = c # Y"
    from stringify_not_closing [OF this] show "c \<noteq> CHR '','' \<and> c \<noteq> CHR '']''" by simp
  qed simp
  with b show ?case by simp
next
  case (JObj kvs)
  from same_kind [OF JObj.prems(3)] obtain lws where b: "b = JObj lws"
    using kind_cases(6) [of b] by auto
  let ?enc = "\<lambda>kv. quote_str (fst kv) @ '':'' @ stringify (snd kv)"
  from b JObj.prems(3) have eq: "join '','' (map ?enc kvs) @ CHR ''}'' # R =
                                 join '','' (map ?enc lws) @ CHR ''}'' # R'"
    by simp
  have "kvs = lws \<and> R = R'"
  proof (rule seq_unique [where enc = ?enc and cl = "CHR ''}''", OF _ _ _ eq])
    fix kv lw Q Q'
    assume kv: "kv \<in> set kvs" and c: "closes Q" "closes Q'" and e: "?enc kv @ Q = ?enc lw @ Q'"
    from e have "quote_str (fst kv) @ ('':'' @ stringify (snd kv) @ Q) =
                 quote_str (fst lw) @ ('':'' @ stringify (snd lw) @ Q')"
      by simp
    from quote_str_unique [OF this] have k: "fst kv = fst lw"
      and v: "stringify (snd kv) @ Q = stringify (snd lw) @ Q'"
      by simp_all
    have "snd kv \<in> Basic_BNFs.snds kv"
      by (cases kv) simp
    from JObj.IH [OF kv this c v] k show "kv = lw \<and> Q = Q'"
      by (simp add: prod_eq_iff)
  next
    fix kv Q c Y
    assume "?enc kv @ Q = c # Y"
    then have "c = dquote" by (simp add: quote_str_def)
    then show "c \<noteq> CHR '','' \<and> c \<noteq> CHR ''}''" by simp
  qed simp
  with b show ?case by simp
qed

lemma stringify_inj: "stringify a = stringify b \<Longrightarrow> a = b"
  using stringify_unique [of "[]" "[]" a b] by (simp add: closes_def)

section \<open>The entries the walker discovers\<close>

lemma split_at_nonempty: "split_at sep s \<noteq> []"
  by (induction s) (auto split: list.splits)

text \<open>A path has more than one segment exactly when it contains a dot.\<close>

lemma more_than_one_segment: "1 < path_depth p \<longleftrightarrow> str_includes p ''.''"
proof -
  have "1 < length (split_at is_dot p) \<longleftrightarrow> (\<exists>c \<in> set p. is_dot c)"
    using split_at_nonempty by (induction p) (auto split: list.splits simp: Suc_lessI)
  moreover have "str_includes p ''.'' \<longleftrightarrow> (\<exists>c \<in> set p. is_dot c)"
    by (induction p) (auto simp: is_dot_def)
  ultimately show ?thesis
    by (simp add: path_depth_def)
qed

lemma map_set_new: "k \<notin> fst ` set m \<Longrightarrow> map_set k v m = m @ [(k, v)]"
  by (induction m) auto

lemma map_set_keys: "fst ` set (map_set k v m) = insert k (fst ` set m)"
  by (induction m) auto

lemma map_set_distinct: "distinct (map fst m) \<Longrightarrow> distinct (map fst (map_set k v m))"
proof (induction m)
  case Nil
  then show ?case by simp
next
  case (Cons e m)
  have "fst ` set (map_set k v m) = insert k (fst ` set m)"
    by (rule map_set_keys)
  with Cons show ?case
    by (auto simp: image_iff)
qed

lemma map_set_entries: "e \<in> set (map_set k v m) \<Longrightarrow> e = (k, v) \<or> e \<in> set m"
  by (induction m) (auto split: if_splits)

lemma register_entries:
  assumes "sub_schema_entries (fst st)"
    and "get_field sch ''type'' = Some (JStr ''object'')"
    and "properties_of sch \<noteq> None"
  shows "sub_schema_entries (fst (register sch p st))"
proof (cases "stringify sch \<notin> snd st \<and> str_includes p ''.'' \<and>
              \<not> list_ex (\<lambda>s. name s = generateSchemaName p) (map snd (fst st))")
  case True
  let ?e = "(stringify sch, \<lparr>name = generateSchemaName p, schema = sch, path = p\<rparr>)"
  from True have "1 < path_depth p"
    by (intro iffD2 [OF more_than_one_segment]) simp
  with assms(2,3) have new: "sub_schema_entry ?e"
    by (simp add: sub_schema_entry_def)
  have "sub_schema_entries (map_set (fst ?e) (snd ?e) (fst st))"
    using assms(1) new
    by (auto simp: sub_schema_entries_def list_all_iff map_set_distinct dest!: map_set_entries)
  with True show ?thesis
    by (simp add: register_def Let_def)
next
  case False
  with assms(1) show ?thesis
    by (auto simp: register_def Let_def)
qed

lemma fold_entries:
  fixes f :: "'a \<Rightarrow> registry \<times> string set \<Rightarrow> registry \<times> string set"
  assumes "\<And>kv st. kv \<in> set ps \<Longrightarrow> sub_schema_entries (fst st) \<Longrightarrow>
             sub_schema_entries (fst (f kv st))"
    and "sub_schema_entries (fst st)"
  shows "sub_schema_entries (fst (fold f ps st))"
  using assms by (induction ps arbitrary: st) auto

lemma findSubSchemas_entries:
  "sub_schema_entries (fst st) \<Longrightarrow> sub_schema_entries (fst (findSubSchemas sch p st))"
proof (induction sch p st rule: findSubSchemas.induct)
  case (1 sch currentPath st)
  show ?case
  proof (cases "get_field sch ''type'' = Some (JStr ''object'') \<and> properties_of sch \<noteq> None")
    case True
    then obtain ps where ps: "properties_of sch = Some ps"
      by auto
    have "sub_schema_entries
            (fst (fold (\<lambda>kv. findSubSchemas (snd kv) (currentPath @ ''.'' @ fst kv)) ps
                       (register sch currentPath st)))"
    proof (rule fold_entries)
      from True show "sub_schema_entries (fst (register sch currentPath st))"
        using "1.prems" by (intro register_entries) simp_all
    next
      fix kv :: "string \<times> json" and st' :: "registry \<times> string set"
      assume "kv \<in> set ps" and "sub_schema_entries (fst st')"
      with "1.IH"(1) [of kv st'] True ps
      show "sub_schema_entries (fst (findSubSchemas (snd kv) (currentPath @ ''.'' @ fst kv) st'))"
        by simp
    qed
    with True ps show ?thesis
      by (subst findSubSchemas.simps) simp
  next
    case False
    show ?thesis
    proof (cases "get_field sch ''type'' = Some (JStr ''array'') \<and> items_of sch \<noteq> None")
      case True
      with False "1.IH"(2) "1.prems" show ?thesis
        by (subst findSubSchemas.simps) simp
    next
      case no: False
      with False "1.prems" show ?thesis
        by (subst findSubSchemas.simps) auto
    qed
  qed
qed

lemma discovered_entries: "sub_schema_entries (discovered doc)"
  unfolding discovered_def
  by (rule findSubSchemas_entries) (simp add: sub_schema_entries_def)

lemma sorted_entries: "sub_schema_entries m \<Longrightarrow> sub_schema_entries (sortSubSchemas m)"
  unfolding sub_schema_entries_def sortSubSchemas_def list_all_iff
  by (auto simp: distinct_map)

lemma prefix_entries: "sub_schema_entries m \<Longrightarrow> sub_schema_entries (take i m)"
  unfolding sub_schema_entries_def list_all_iff
  by (auto simp: take_map [symmetric] dest: in_set_takeD)

text \<open>
  A registry of sub-schema entries binds the signatures of object-typed nodes only, so
  a node of any other type is never substituted.
\<close>

lemma only_objects_substituted:
  assumes "registry_ok subSchemas" and "get_field sch ''type'' \<noteq> Some (JStr ''object'')"
  shows "registry_name subSchemas (stringify sch) = None"
proof (cases subSchemas)
  case None
  then show ?thesis
    by (simp add: registry_name_def)
next
  case (Some m)
  have "map_of m (stringify sch) = None"
  proof (rule ccontr)
    assume "map_of m (stringify sch) \<noteq> None"
    then obtain e where "(stringify sch, e) \<in> set m"
      by (auto dest: map_of_SomeD)
    with assms(1) Some have "sub_schema_entry (stringify sch, e)"
      by (auto simp: registry_ok_def sub_schema_entries_def list_all_iff)
    then have "stringify sch = stringify (schema e)"
      and "get_field (schema e) ''type'' = Some (JStr ''object'')"
      by (simp_all add: sub_schema_entry_def)
    with stringify_inj [of sch "schema e"] assms(2) show False
      by simp
  qed
  with Some show ?thesis
    by (simp add: registry_name_def)
qed

section \<open>The rules of the translator, one by one\<close>

text \<open>
  A node reaches the type-tag dispatch when it is not substituted (rule 1), its type is a
  single tag (rule 2 does not apply) and it has no enum list (rule 3).
\<close>

lemma single_tag_no_tags: "get_field sch ''type'' = Some (JStr t) \<Longrightarrow> nonNullTypes sch = []"
  by (simp add: nonNullTypes_def type_tags_def)

lemma substituted:
  "registry_name subSchemas (stringify sch) = Some nm \<Longrightarrow>
   jsonSchemaToZod sch depth subSchemas fieldName = nm"
  by (subst jsonSchemaToZod.simps) (simp add: Let_def)

lemma nullable_rule:
  assumes "registry_name subSchemas (stringify sch) = None"
    and "nonNullTypes sch = [t]" and "hasNull sch"
  shows "jsonSchemaToZod sch depth subSchemas fieldName =
     jsonSchemaToZod (with_type sch t) depth subSchemas fieldName @ ''.nullable()''"
  using assms by (subst jsonSchemaToZod.simps) (simp add: Let_def)

lemma string_rule:
  assumes "registry_name subSchemas (stringify sch) = None"
    and "get_field sch ''type'' = Some (JStr ''string'')"
    and "enum_of sch = None"
  shows "jsonSchemaToZod sch depth subSchemas fieldName = string_validator sch fieldName"
  using assms by (subst jsonSchemaToZod.simps) (simp add: Let_def single_tag_no_tags)

lemma array_rule:
  assumes "registry_name subSchemas (stringify sch) = None"
    and "get_field sch ''type'' = Some (JStr ''array'')"
    and "enum_of sch = None"
    and "items_of sch = Some it"
  shows "jsonSchemaToZod sch depth subSchemas fieldName =
    ''z.array('' @ jsonSchemaToZod it depth subSchemas None @ '')'' @
    array_bounds sch @ describe_suffix sch"
  using assms by (subst jsonSchemaToZod.simps) (simp add: Let_def single_tag_no_tags)

lemma object_rule:
  assumes "registry_name subSchemas (stringify sch) = None"
    and "get_field sch ''type'' = Some (JStr ''object'')"
    and "enum_of sch = None"
    and "properties_of sch = Some P"
  shows "jsonSchemaToZod sch depth subSchemas fieldName =
     ''z.object({'' @ [newline] @
     join ('','' @ [newline])
       (map (\<lambda>kv. concat (replicate depth ''  '') @ ''  '' @ formatPropertyName (fst kv) @ '': '' @
                   jsonSchemaToZod (snd kv) (depth + 1) subSchemas (Some (fst kv)) @
                   optional_marker sch (fst kv))
            P) @
     [newline] @ concat (replicate depth ''  '') @ ''})'' @ describe_suffix sch"
  using assms by (subst jsonSchemaToZod.simps) (simp add: Let_def single_tag_no_tags)

lemma matches_nonempty: "matches_uuid_name f \<Longrightarrow> f \<noteq> []"
  by (auto simp: matches_uuid_name_def toLowerCase_def endsWith_def)

section \<open>What a node of the interface holds\<close>

text \<open>The bounds of a node of the interface are numbers that JavaScript prints in plain decimal.\<close>

lemma bound_is_safe:
  assumes "schema_node sch" and "number_of sch k = Some n"
    and "k = ''minimum'' \<or> k = ''maximum'' \<or> k = ''minItems'' \<or> k = ''maxItems''"
  shows "safe_integer n"
proof -
  from assms(1) have "typed_schema sch"
    by (simp add: schema_node_def)
  then have "optional_number sch ''minimum'' \<and> optional_number sch ''maximum'' \<and>
             optional_number sch ''minItems'' \<and> optional_number sch ''maxItems''"
    by (subst (asm) typed_schema.simps) blast
  with assms(3) have "optional_number sch k"
    by blast
  moreover from assms(2) have "get_field sch k = Some (JNum n)"
    by (auto simp: number_of_def split: option.splits json.splits)
  ultimately show ?thesis
    by (simp add: optional_number_def is_safe_number_def)
qed

text \<open>The properties of a node of the interface are nodes of the interface.\<close>

lemma typed_property:
  assumes "typed_schema sch" and "properties_of sch = Some P" and "kv \<in> set P"
  shows "ascii (fst kv) \<and> typed_schema (snd kv)"
proof -
  from assms(2) have p: "get_field sch ''properties'' = Some (JObj P)"
    by (auto simp: properties_of_def split: option.splits json.splits)
  from assms(1) have "case get_field sch ''properties'' of
        None \<Rightarrow> True
      | Some (JObj ps) \<Rightarrow> list_all (\<lambda>p. ascii (fst p) \<and> typed_schema (snd p)) ps
      | Some _ \<Rightarrow> False"
    by (subst (asm) typed_schema.simps) blast
  with p assms(3) show ?thesis
    by (simp add: list_all_iff)
qed

section \<open>The members of a parsed object\<close>

lemma map_of_map_set: "map_of (map_set k v m) k' = (if k' = k then Some v else map_of m k')"
  by (induction m) auto

lemma map_set_keeps_distinct: "distinct (map fst m) \<Longrightarrow> distinct (map fst (map_set k v m))"
proof (induction m)
  case Nil
  then show ?case by simp
next
  case (Cons e m)
  have "fst ` set (map_set k v m) = insert k (fst ` set m)"
    by (induction m) auto
  with Cons show ?case
    by (auto simp: image_iff)
qed

lemma map_set_fresh: "k \<notin> fst ` set m \<Longrightarrow> map_set k v m = m @ [(k, v)]"
  by (induction m) auto

text \<open>Of the members with one name the last gives the value.\<close>

lemma map_of_stored:
  "map_of (fold (\<lambda>kv. map_set (fst kv) (g (snd kv))) kvs acc) k =
     (case map_of (rev kvs) k of Some v \<Rightarrow> Some (g v) | None \<Rightarrow> map_of acc k)"
proof (induction kvs arbitrary: acc)
  case Nil
  then show ?case by simp
next
  case (Cons kv kvs)
  show ?case
    by (cases "map_of (rev kvs) k") (simp_all add: Cons.IH map_of_map_set map_add_def)
qed

lemma stored_distinct:
  "distinct (map fst acc) \<Longrightarrow>
   distinct (map fst (fold (\<lambda>kv. map_set (fst kv) (g (snd kv))) kvs acc))"
  by (induction kvs arbitrary: acc) (simp_all add: map_set_keeps_distinct)

text \<open>When the names are pairwise different, the members are stored in the order of the text.\<close>

lemma stored_in_order:
  "distinct (map fst acc @ map fst kvs) \<Longrightarrow>
   fold (\<lambda>kv. map_set (fst kv) (g (snd kv))) kvs acc = acc @ map (\<lambda>kv. (fst kv, g (snd kv))) kvs"
proof (induction kvs arbitrary: acc)
  case Nil
  then show ?case by simp
next
  case (Cons kv kvs)
  from Cons.prems have "fst kv \<notin> fst ` set acc"
    by auto
  then have "map_set (fst kv) (g (snd kv)) acc = acc @ [(fst kv, g (snd kv))]"
    by (rule map_set_fresh)
  moreover from Cons.prems have "distinct (map fst (acc @ [(fst kv, g (snd kv))]) @ map fst kvs)"
    by auto
  ultimately show ?case
    using Cons.IH [of "acc @ [(fst kv, g (snd kv))]"] by simp
qed

lemma own_property_order_set: "set (own_property_order m) = set m"
  by (auto simp: own_property_order_def)

lemma own_property_order_distinct:
  assumes "distinct (map fst m)"
  shows "distinct (map fst (own_property_order m))"
proof -
  from assms have "distinct m" and "inj_on fst (set m)"
    by (simp_all add: distinct_map)
  then have "distinct (own_property_order m)"
    by (auto simp: own_property_order_def)
  with \<open>inj_on fst (set m)\<close> show ?thesis
    by (simp add: distinct_map own_property_order_set)
qed

lemma map_of_own_property_order:
  assumes "distinct (map fst m)"
  shows "map_of (own_property_order m) = map_of m"
  using assms own_property_order_distinct [OF assms]
  by (simp add: map_of_inject_set own_property_order_set)

text \<open>The members of a parsed object: the parsed value of the last member with the name.\<close>

lemma get_field_parsed:
  "get_field (JSON_parse (JObj members)) k = map_option JSON_parse (map_of (rev members) k)"
proof -
  have "distinct (map fst (fold (\<lambda>kv. map_set (fst kv) (JSON_parse (snd kv))) members []))"
    by (rule stored_distinct) simp
  then show ?thesis
    by (simp add: get_field_def map_of_own_property_order map_of_stored split: option.splits)
qed

lemma properties_of_parsed:
  assumes "map_of (rev members) ''properties'' = Some (JObj D)"
  shows "properties_of (JSON_parse (JObj members)) =
         Some (own_property_order (fold (\<lambda>kv. map_set (fst kv) (JSON_parse (snd kv))) D []))"
proof -
  from assms have "get_field (JSON_parse (JObj members)) ''properties'' = Some (JSON_parse (JObj D))"
    by (simp only: get_field_parsed option.map)
  then show ?thesis
    by (simp add: properties_of_def)
qed

lemma map_insort_key: "map g (insort_key (\<lambda>x. f (g x)) x xs) = insort_key f (g x) (map g xs)"
  by (induction xs) auto

lemma map_sort_key: "map g (sort_key (\<lambda>x. f (g x)) xs) = sort_key f (map g xs)"
  by (induction xs) (simp_all add: map_insort_key)

text \<open>
  The names of an object in the order of enumeration: the array indices in ascending
  order, then the other names as they were stored.
\<close>

lemma names_in_own_property_order:
  "map fst (own_property_order m) =
     sort_key index_value (filter is_array_index (map fst m)) @
     filter (\<lambda>k. \<not> is_array_index k) (map fst m)"
proof -
  have "map fst (filter (\<lambda>kv. Q (fst kv)) m) = filter Q (map fst m)" for Q
    by (induction m) auto
  from this [of is_array_index] this [of "\<lambda>k. \<not> is_array_index k"] show ?thesis
    by (simp add: own_property_order_def map_sort_key)
qed

section \<open>Substitution comes first\<close>

text \<open>
  C4. When the translator is given a registry and the signature of the node is one of its
  keys, the result is the name bound to that signature, whatever the node's type tags,
  enum list or fields are and whatever the depth and the field name: no other rule is
  applied and no child is translated. The root translation of the emitter is the call
  \<open>jsonSchemaToZod jsonSchema 0 (Some processedSchemas) None\<close>, an instance.
\<close>

theorem substitution_before_every_rule:
  assumes "map_of reg (stringify sch) = Some e"
  shows "jsonSchemaToZod sch depth (Some reg) fieldName = name e"
  using assms by (intro substituted) (simp add: registry_name_def)

theorem substitution_before_every_rule_witness:
  "map_of one_entry_registry (stringify bound_node) = Some bound_entry \<and>
   jsonSchemaToZod bound_node 2 (Some one_entry_registry) (Some ''uuid'') = ''IdSchema''"
proof -
  have h: "map_of one_entry_registry (stringify bound_node) = Some bound_entry"
    by (simp add: one_entry_registry_def)
  from substitution_before_every_rule [OF h, of 2 "Some ''uuid''"] h
  show ?thesis by (simp add: bound_entry_def)
qed

section \<open>Required and optional properties\<close>

text \<open>
  C5, as the code has it. A node of the interface that is object-typed with a
  properties mapping \<open>P\<close>, has no enum list and is not replaced by a reference (its
  signature is not bound in the registry that the translator is given) is written as
  one line per property of \<open>P\<close>, in the order of \<open>P\<close>. With \<open>R\<close> the set of names in the
  node's \<^verbatim>\<open>required\<close> list (empty when the list is absent), the line of a property
  ends with the translation of the property's node when its name is in \<open>R\<close>, and with
  that translation followed by \<^verbatim>\<open>.optional()\<close> otherwise.
\<close>

theorem required_properties_are_not_optional:
  assumes "schema_node sch"
    and "registry_name subSchemas (stringify sch) = None"
    and "get_field sch ''type'' = Some (JStr ''object'')"
    and "enum_of sch = None"
    and "properties_of sch = Some P"
    and "R = (case get_field sch ''required'' of
                Some (JArr rs) \<Rightarrow> {k. JStr k \<in> set rs} | _ \<Rightarrow> {})"
  shows "jsonSchemaToZod sch depth subSchemas fieldName =
     ''z.object({'' @ [newline] @
     join ('','' @ [newline])
       (map (\<lambda>kv. concat (replicate depth ''  '') @ ''  '' @ formatPropertyName (fst kv) @ '': '' @
                   jsonSchemaToZod (snd kv) (depth + 1) subSchemas (Some (fst kv)) @
                   (if fst kv \<in> R then [] else ''.optional()''))
            P) @
     [newline] @ concat (replicate depth ''  '') @ ''})'' @ describe_suffix sch"
proof -
  have "optional_marker sch k = (if k \<in> R then [] else ''.optional()'')" for k
    by (simp add: optional_marker_def isRequired_def assms(6) split: option.splits json.splits)
  with object_rule [OF assms(2-5)] show ?thesis by simp
qed

theorem required_properties_are_not_optional_witness:
  "schema_node uuid_size_node \<and>
   registry_name None (stringify uuid_size_node) = None \<and>
   get_field uuid_size_node ''type'' = Some (JStr ''object'') \<and>
   enum_of uuid_size_node = None \<and>
   properties_of uuid_size_node =
     Some [(''uuid'', JObj [(''type'', JStr ''string'')]),
           (''size'', JObj [(''type'', JStr ''integer'')])] \<and>
   {''uuid''} = (case get_field uuid_size_node ''required'' of
                  Some (JArr rs) \<Rightarrow> {k. JStr k \<in> set rs} | _ \<Rightarrow> {}) \<and>
   jsonSchemaToZod uuid_size_node 0 None None =
     ''z.object({'' @ [newline] @
     ''  uuid: z.string().uuid(),'' @ [newline] @
     ''  size: z.number().int().optional()'' @ [newline] @
     ''})''"
proof -
  have h0: "schema_node uuid_size_node"
    by code_simp
  have h1: "registry_name None (stringify uuid_size_node) = None"
    by (simp add: registry_name_def)
  have h2: "get_field uuid_size_node ''type'' = Some (JStr ''object'')"
    by (simp add: uuid_size_node_def get_field_def)
  have h3: "enum_of uuid_size_node = None"
    by (simp add: uuid_size_node_def enum_of_def get_field_def)
  have h4: "properties_of uuid_size_node =
     Some [(''uuid'', JObj [(''type'', JStr ''string'')]),
           (''size'', JObj [(''type'', JStr ''integer'')])]"
    by (simp add: uuid_size_node_def properties_of_def get_field_def)
  have h5: "{''uuid''} = (case get_field uuid_size_node ''required'' of
                  Some (JArr rs) \<Rightarrow> {k. JStr k \<in> set rs} | _ \<Rightarrow> {})"
    by (auto simp: uuid_size_node_def get_field_def)
  have c1: "jsonSchemaToZod (JObj [(''type'', JStr ''string'')]) (Suc 0) None (Some ''uuid'') =
            ''z.string().uuid()''"
    by code_simp
  have c2: "jsonSchemaToZod (JObj [(''type'', JStr ''integer'')]) (Suc 0) None (Some ''size'') =
            ''z.number().int()''"
    by code_simp
  have c3: "formatPropertyName ''uuid'' = ''uuid''" "formatPropertyName ''size'' = ''size''"
    by code_simp+
  have c4: "describe_suffix uuid_size_node = []"
    by code_simp
  from required_properties_are_not_optional [OF h0 h1 h2 h3 h4 h5, of 0 None]
  have "jsonSchemaToZod uuid_size_node 0 None None =
     ''z.object({'' @ [newline] @
     ''  uuid: z.string().uuid(),'' @ [newline] @
     ''  size: z.number().int().optional()'' @ [newline] @
     ''})''"
    by (simp add: c1 c2 c3 c4)
  with h0 h1 h2 h3 h4 h5 show ?thesis by blast
qed

text \<open>
  C5, as the spec states it, fails on an object-typed node with a properties mapping and
  a required list that also has an enum list: the enum rule comes first (lines 125-132)
  and no property is written. It fails as well on a node whose signature is bound in the
  registry: the name is written in place of the object (lines 88-95).
\<close>

theorem enum_list_hides_required_property:
  "schema_node enum_object \<and>
   get_field enum_object ''type'' = Some (JStr ''object'') \<and>
   properties_of enum_object = Some [(''a'', JObj [(''type'', JStr ''string'')])] \<and>
   get_field enum_object ''required'' = Some (JArr [JStr ''a'']) \<and>
   jsonSchemaToZod enum_object 0 None None = ''z.enum([1])'' \<and>
   jsonSchemaToZod uuid_size_node 0
     (Some [(stringify uuid_size_node,
             \<lparr>name = ''ItemSchema'', schema = uuid_size_node, path = ''.item''\<rparr>)]) None =
     ''ItemSchema''"
  by code_simp

section \<open>Field names that look like identifiers of records\<close>

text \<open>
  C8, as the code has it. A node of the interface that is string-typed, has no pattern
  and no enum list, translated against no registry or a registry of sub-schema
  entries, under an ASCII field name whose lower-case form is \<^verbatim>\<open>uuid\<close>, ends with
  \<^verbatim>\<open>_id\<close> or contains \<^verbatim>\<open>uuid\<close> or \<^verbatim>\<open>guid\<close>, is written as
  \<^verbatim>\<open>z.string().uuid()\<close>, followed only by the date-time constraint and the description
  when the node has them.
\<close>

theorem uuid_field_name_gives_uuid_constraint:
  assumes "schema_node sch"
    and "ascii f"
    and "registry_ok subSchemas"
    and "get_field sch ''type'' = Some (JStr ''string'')"
    and "enum_of sch = None"
    and "get_field sch ''pattern'' = None"
    and "toLowerCase f = ''uuid'' \<or> endsWith (toLowerCase f) ''_id'' \<or>
         str_includes (toLowerCase f) ''uuid'' \<or> str_includes (toLowerCase f) ''guid''"
  shows "jsonSchemaToZod sch depth subSchemas (Some f) =
         ''z.string().uuid()'' @
         (if get_field sch ''format'' = Some (JStr ''date-time'') then ''.datetime()'' else []) @
         describe_suffix sch"
proof -
  from assms(7) have m: "matches_uuid_name f"
    by (simp add: matches_uuid_name_def)
  then have "f \<noteq> []"
    by (rule matches_nonempty)
  with m assms(6) have "string_validator sch (Some f) =
         ''z.string().uuid()'' @
         (if get_field sch ''format'' = Some (JStr ''date-time'') then ''.datetime()'' else []) @
         describe_suffix sch"
    by (simp add: string_validator_def truthy_string_def)
  moreover from assms(3,4) have "registry_name subSchemas (stringify sch) = None"
    by (intro only_objects_substituted) simp_all
  ultimately show ?thesis
    using string_rule [OF _ assms(4,5)] by simp
qed

theorem uuid_field_name_gives_uuid_constraint_witness:
  "schema_node datetime_node \<and> ascii ''Device_ID'' \<and>
   registry_ok (Some (discovered collision_doc)) \<and>
   get_field datetime_node ''type'' = Some (JStr ''string'') \<and>
   enum_of datetime_node = None \<and>
   get_field datetime_node ''pattern'' = None \<and>
   endsWith (toLowerCase ''Device_ID'') ''_id'' \<and>
   jsonSchemaToZod datetime_node 0 (Some (discovered collision_doc)) (Some ''Device_ID'') =
     ''z.string().uuid().datetime()''"
proof -
  have g1: "schema_node datetime_node"
    by code_simp
  have g2: "ascii ''Device_ID''"
    by code_simp
  have h1: "registry_ok (Some (discovered collision_doc))"
    by (simp add: registry_ok_def discovered_entries)
  have h2: "get_field datetime_node ''type'' = Some (JStr ''string'')"
    by (simp add: datetime_node_def get_field_def)
  have h3: "enum_of datetime_node = None"
    by (simp add: datetime_node_def enum_of_def get_field_def)
  have h4: "get_field datetime_node ''pattern'' = None"
    by (simp add: datetime_node_def get_field_def)
  have h5: "endsWith (toLowerCase ''Device_ID'') ''_id''"
    by code_simp
  have d: "describe_suffix datetime_node = []"
    by code_simp
  have f: "get_field datetime_node ''format'' = Some (JStr ''date-time'')"
    by (simp add: datetime_node_def get_field_def)
  from uuid_field_name_gives_uuid_constraint [OF g1 g2 h1 h2 h3 h4, of 0] h5
  have "jsonSchemaToZod datetime_node 0 (Some (discovered collision_doc)) (Some ''Device_ID'') =
        ''z.string().uuid().datetime()''"
    by (simp add: d f)
  with g1 g2 h1 h2 h3 h4 h5 show ?thesis by simp
qed

text \<open>
  C8, as the spec states it, fails on a string-typed node without a pattern that has an
  enum list: the enum rule comes first (lines 125-132), and under the field name
  \<^verbatim>\<open>user_id\<close> the node is written as a choice of its values, with no UUID constraint.
\<close>

theorem enum_list_hides_uuid_constraint:
  "schema_node enum_string \<and>
   get_field enum_string ''type'' = Some (JStr ''string'') \<and>
   get_field enum_string ''pattern'' = None \<and>
   endsWith (toLowerCase ''user_id'') ''_id'' \<and>
   jsonSchemaToZod enum_string 0 None (Some ''user_id'') =
     ''z.enum(['' @ [dquote] @ ''a'' @ [dquote] @ '', '' @ [dquote] @ ''b'' @ [dquote] @ ''])''"
  by code_simp

section \<open>Array length constraints\<close>

text \<open>
  C6, as the code has it. A node of the interface that is array-typed with an element
  schema (any value that JavaScript takes for true) and has no enum list, translated
  against no registry or a registry of sub-schema entries: when \<^verbatim>\<open>minItems\<close> and
  \<^verbatim>\<open>maxItems\<close> are both present and equal to \<open>k\<close>, the array validator is followed by
  \<^verbatim>\<open>.length(k)\<close> and by nothing else but the description; when they are present and
  differ, it is followed by \<^verbatim>\<open>.min(a)\<close> and \<^verbatim>\<open>.max(b)\<close>. The bounds are safe integers,
  which JavaScript prints in plain decimal.
\<close>

theorem equal_bounds_give_exact_length:
  assumes "schema_node sch"
    and "registry_ok subSchemas"
    and "get_field sch ''type'' = Some (JStr ''array'')"
    and "enum_of sch = None"
    and "items_of sch = Some it"
  shows "(number_of sch ''minItems'' = Some k \<and> number_of sch ''maxItems'' = Some k \<longrightarrow>
          safe_integer k \<and>
          jsonSchemaToZod sch depth subSchemas fieldName =
            ''z.array('' @ jsonSchemaToZod it depth subSchemas None @ '')'' @
            ''.length('' @ num_str k @ '')'' @ describe_suffix sch) \<and>
         (number_of sch ''minItems'' = Some a \<and> number_of sch ''maxItems'' = Some b \<and> a \<noteq> b \<longrightarrow>
          safe_integer a \<and> safe_integer b \<and>
          jsonSchemaToZod sch depth subSchemas fieldName =
            ''z.array('' @ jsonSchemaToZod it depth subSchemas None @ '')'' @
            ''.min('' @ num_str a @ '')'' @ ''.max('' @ num_str b @ '')'' @ describe_suffix sch)"
proof -
  from assms(2,3) have "registry_name subSchemas (stringify sch) = None"
    by (intro only_objects_substituted) simp_all
  from array_rule [OF this assms(3-5)]
  have "jsonSchemaToZod sch depth subSchemas fieldName =
    ''z.array('' @ jsonSchemaToZod it depth subSchemas None @ '')'' @
    array_bounds sch @ describe_suffix sch" .
  moreover have "safe_integer n" if "number_of sch ''minItems'' = Some n" for n
    using bound_is_safe [OF assms(1) that] by simp
  moreover have "safe_integer n" if "number_of sch ''maxItems'' = Some n" for n
    using bound_is_safe [OF assms(1) that] by simp
  ultimately show ?thesis
    by (simp add: array_bounds_def)
qed

theorem equal_bounds_give_exact_length_witness:
  "jsonSchemaToZod three_integers 0 None None = ''z.array(z.number().int()).length(3)'' \<and>
   jsonSchemaToZod two_of_anything 0 None None = ''z.array(z.any()).length(2)'' \<and>
   jsonSchemaToZod one_to_five_integers 0 None None = ''z.array(z.number().int()).min(1).max(5)''"
proof -
  let ?it = "JObj [(''type'', JStr ''integer'')]"
  have it: "jsonSchemaToZod ?it 0 None None = ''z.number().int()''"
    by code_simp
  have any: "jsonSchemaToZod (JBool True) 0 None None = ''z.any()''"
    by code_simp
  have n: "num_str 3 = ''3''" "num_str 2 = ''2''" "num_str 1 = ''1''" "num_str 5 = ''5''"
    by code_simp+
  have r: "registry_ok None"
    by (simp add: registry_ok_def)
  have a1: "schema_node three_integers"
    by code_simp
  have a2: "get_field three_integers ''type'' = Some (JStr ''array'')"
    by (simp add: three_integers_def get_field_def)
  have a3: "enum_of three_integers = None"
    by (simp add: three_integers_def enum_of_def get_field_def)
  have a4: "items_of three_integers = Some ?it"
    by (simp add: three_integers_def items_of_def get_field_def)
  have a5: "number_of three_integers ''minItems'' = Some 3 \<and>
            number_of three_integers ''maxItems'' = Some 3"
    by (simp add: three_integers_def number_of_def get_field_def)
  have a6: "describe_suffix three_integers = []"
    by code_simp
  have b1: "schema_node one_to_five_integers"
    by code_simp
  have b2: "get_field one_to_five_integers ''type'' = Some (JStr ''array'')"
    by (simp add: one_to_five_integers_def get_field_def)
  have b3: "enum_of one_to_five_integers = None"
    by (simp add: one_to_five_integers_def enum_of_def get_field_def)
  have b4: "items_of one_to_five_integers = Some ?it"
    by (simp add: one_to_five_integers_def items_of_def get_field_def)
  have b5: "number_of one_to_five_integers ''minItems'' = Some 1 \<and>
            number_of one_to_five_integers ''maxItems'' = Some 5 \<and> (1 :: int) \<noteq> 5"
    by (simp add: one_to_five_integers_def number_of_def get_field_def)
  have b6: "describe_suffix one_to_five_integers = []"
    by code_simp
  have c1: "schema_node two_of_anything"
    by code_simp
  have c2: "get_field two_of_anything ''type'' = Some (JStr ''array'')"
    by (simp add: two_of_anything_def get_field_def)
  have c3: "enum_of two_of_anything = None"
    by (simp add: two_of_anything_def enum_of_def get_field_def)
  have c4: "items_of two_of_anything = Some (JBool True)"
    by (simp add: two_of_anything_def items_of_def get_field_def)
  have c5: "number_of two_of_anything ''minItems'' = Some 2 \<and>
            number_of two_of_anything ''maxItems'' = Some 2"
    by (simp add: two_of_anything_def number_of_def get_field_def)
  have c6: "describe_suffix two_of_anything = []"
    by code_simp
  from equal_bounds_give_exact_length [OF a1 r a2 a3 a4, of 3 0 None 0 0] a5
  have A: "jsonSchemaToZod three_integers 0 None None = ''z.array(z.number().int()).length(3)''"
    by (simp add: it n a6)
  from equal_bounds_give_exact_length [OF b1 r b2 b3 b4, of 0 0 None 1 5] b5
  have B: "jsonSchemaToZod one_to_five_integers 0 None None =
           ''z.array(z.number().int()).min(1).max(5)''"
    by (simp add: it n b6)
  from equal_bounds_give_exact_length [OF c1 r c2 c3 c4, of 2 0 None 0 0] c5
  have C: "jsonSchemaToZod two_of_anything 0 None None = ''z.array(z.any()).length(2)''"
    by (simp add: any n c6)
  from A B C show ?thesis by simp
qed

text \<open>
  C6, as the spec states it, fails on an array-typed node with an element schema and
  equal bounds that also has an enum list, even an empty one: the enum rule comes
  first (lines 125-132) and no length constraint is written.
\<close>

theorem enum_list_hides_length_constraint:
  "schema_node enum_array \<and>
   get_field enum_array ''type'' = Some (JStr ''array'') \<and>
   items_of enum_array = Some (JObj [(''type'', JStr ''integer'')]) \<and>
   number_of enum_array ''minItems'' = Some 2 \<and>
   number_of enum_array ''maxItems'' = Some 2 \<and>
   jsonSchemaToZod enum_array 0 None None = ''z.enum([])''"
  by code_simp

section \<open>One type tag and null\<close>

lemma not_single_union: "v @ ''.nullable()'' \<noteq> ''z.union(['' @ v @ ''])'' @ rest"
proof
  assume eq: "v @ ''.nullable()'' = ''z.union(['' @ v @ ''])'' @ rest"
  then have "length (v @ ''.nullable()'') = length (''z.union(['' @ v @ ''])'' @ rest)"
    by simp
  then have "rest = []"
    by simp
  with eq have "rev (v @ ''.nullable()'') = rev (''z.union(['' @ v @ ''])'')"
    by simp
  then show False
    by simp
qed

text \<open>
  C7. A node whose type is a list of two tags, exactly one of them \<^verbatim>\<open>null\<close>,
  translated against no registry or a registry of sub-schema entries, is written as
  the translation of the node with the other tag as its type, followed by
  \<^verbatim>\<open>.nullable()\<close>; the text is never a union around that one translation.
\<close>

theorem one_tag_and_null_is_nullable:
  assumes "registry_ok subSchemas"
    and "get_field sch ''type'' = Some (JArr [a, b])"
    and "(a = JStr ''null'') \<noteq> (b = JStr ''null'')"
  shows "jsonSchemaToZod sch depth subSchemas fieldName =
           jsonSchemaToZod (with_type sch (if a = JStr ''null'' then b else a))
             depth subSchemas fieldName @
           ''.nullable()'' \<and>
         (\<forall>rest. jsonSchemaToZod sch depth subSchemas fieldName \<noteq>
           ''z.union(['' @
           jsonSchemaToZod (with_type sch (if a = JStr ''null'' then b else a))
             depth subSchemas fieldName @
           ''])'' @ rest)"
proof -
  from assms(2,3) have "nonNullTypes sch = [if a = JStr ''null'' then b else a]" and "hasNull sch"
    by (auto simp: nonNullTypes_def hasNull_def type_tags_def)
  moreover from assms(1,2) have "registry_name subSchemas (stringify sch) = None"
    by (intro only_objects_substituted) simp_all
  ultimately show ?thesis
    using nullable_rule [of subSchemas sch "if a = JStr ''null'' then b else a" depth fieldName]
    by (simp only: not_single_union simp_thms)
qed

theorem one_tag_and_null_is_nullable_witness:
  "jsonSchemaToZod nullable_datetime 0 None None = ''z.string().datetime().nullable()''"
proof -
  have h1: "registry_ok None"
    by (simp add: registry_ok_def)
  have h2: "get_field nullable_datetime ''type'' = Some (JArr [JStr ''string'', JStr ''null''])"
    by (simp add: nullable_datetime_def get_field_def)
  have h3: "(JStr ''string'' = JStr ''null'') \<noteq> (JStr ''null'' = JStr ''null'')"
    by simp
  have b: "jsonSchemaToZod (with_type nullable_datetime (JStr ''string'')) 0 None None =
           ''z.string().datetime()''"
    by code_simp
  from one_tag_and_null_is_nullable [OF h1 h2 h3, of 0 None] show ?thesis
    by (simp add: b)
qed

section \<open>Property names\<close>

lemma quote_str_longer: "length s < length (quote_str s)"
proof -
  have "length s \<le> length (concat (map escape_char s))"
    by (induction s) (auto simp: escape_char_def)
  then show ?thesis
    by (simp add: quote_str_def)
qed

lemma bare_iff_identifier: "formatPropertyName nm = nm \<longleftrightarrow> isValidIdentifier nm"
  using quote_str_longer [of nm] by (auto simp: formatPropertyName_def)

text \<open>
  C10, as the code has it. Let a node of the document be the object with the members
  \<open>members\<close>, its properties mapping written with the members \<open>D\<close>, and let the parsed
  node be object-typed, without an enum list and not replaced by a reference. Its
  object validator has one line for each property, in the order \<open>P\<close> in which JavaScript
  enumerates the parsed properties mapping. When the names of \<open>D\<close> are pairwise
  different, that order is: the names that are array indices (\<^verbatim>\<open>0\<close>, \<^verbatim>\<open>7\<close>, \<^verbatim>\<open>10\<close>) in
  ascending numeric order, then the other names in the order of \<open>D\<close>. The line of a
  property starts with its name as it is when the name is a valid identifier, and with
  the name as a JSON string (in double quotes, escaped) otherwise. A name is written
  unchanged exactly when it is a valid identifier.
\<close>

theorem property_names_bare_or_quoted:
  assumes "sch = JSON_parse (JObj members)"
    and "map_of (rev members) ''properties'' = Some (JObj D)"
    and "P = own_property_order (fold (\<lambda>kv. map_set (fst kv) (JSON_parse (snd kv))) D [])"
    and "schema_node sch"
    and "registry_name subSchemas (stringify sch) = None"
    and "get_field sch ''type'' = Some (JStr ''object'')"
    and "enum_of sch = None"
  shows "jsonSchemaToZod sch depth subSchemas fieldName =
     ''z.object({'' @ [newline] @
     join ('','' @ [newline])
       (map (\<lambda>kv. concat (replicate depth ''  '') @ ''  '' @
                   (if isValidIdentifier (fst kv) then fst kv else quote_str (fst kv)) @ '': '' @
                   jsonSchemaToZod (snd kv) (depth + 1) subSchemas (Some (fst kv)) @
                   optional_marker sch (fst kv))
            P) @
     [newline] @ concat (replicate depth ''  '') @ ''})'' @ describe_suffix sch \<and>
     (distinct (map fst D) \<longrightarrow>
        P = own_property_order (map (\<lambda>kv. (fst kv, JSON_parse (snd kv))) D) \<and>
        map fst P = sort_key index_value (filter is_array_index (map fst D)) @
                    filter (\<lambda>k. \<not> is_array_index k) (map fst D)) \<and>
     (\<forall>nm. formatPropertyName nm = nm \<longleftrightarrow> isValidIdentifier nm)"
proof -
  have f: "formatPropertyName k = (if isValidIdentifier k then k else quote_str k)" for k
    by (simp add: formatPropertyName_def)
  have p: "properties_of sch = Some P"
    unfolding assms(1,3) using assms(2) by (rule properties_of_parsed)
  have 1: "jsonSchemaToZod sch depth subSchemas fieldName =
     ''z.object({'' @ [newline] @
     join ('','' @ [newline])
       (map (\<lambda>kv. concat (replicate depth ''  '') @ ''  '' @
                   (if isValidIdentifier (fst kv) then fst kv else quote_str (fst kv)) @ '': '' @
                   jsonSchemaToZod (snd kv) (depth + 1) subSchemas (Some (fst kv)) @
                   optional_marker sch (fst kv))
            P) @
     [newline] @ concat (replicate depth ''  '') @ ''})'' @ describe_suffix sch"
    using object_rule [OF assms(5,6,7) p] f by simp
  have 2: "P = own_property_order (map (\<lambda>kv. (fst kv, JSON_parse (snd kv))) D) \<and>
           map fst P = sort_key index_value (filter is_array_index (map fst D)) @
                       filter (\<lambda>k. \<not> is_array_index k) (map fst D)"
    if "distinct (map fst D)"
  proof -
    from that have "fold (\<lambda>kv. map_set (fst kv) (JSON_parse (snd kv))) D [] =
                    map (\<lambda>kv. (fst kv, JSON_parse (snd kv))) D"
      using stored_in_order [of "[]" D JSON_parse] by simp
    then have "P = own_property_order (map (\<lambda>kv. (fst kv, JSON_parse (snd kv))) D)"
      by (simp add: assms(3))
    moreover have "map fst (map (\<lambda>kv. (fst kv, JSON_parse (snd kv))) D) = map fst D"
      by (simp add: comp_def)
    ultimately show ?thesis
      using names_in_own_property_order [of "map (\<lambda>kv. (fst kv, JSON_parse (snd kv))) D"]
      by (simp add: comp_def)
  qed
  from 1 2 bare_iff_identifier show ?thesis
    by blast
qed

theorem property_names_bare_or_quoted_witness:
  "distinct (map fst odd_names_members) \<and>
   map fst odd_names_members = [''a.b'', ''7'', ''$ok_1'', ''1st'', ''0'', ''x-y''] \<and>
   jsonSchemaToZod (JSON_parse odd_names_doc) 0 None None =
     ''z.object({'' @ [newline] @
     ''  '' @ [dquote] @ ''0'' @ [dquote] @ '': z.boolean().optional(),'' @ [newline] @
     ''  '' @ [dquote] @ ''7'' @ [dquote] @ '': z.boolean().optional(),'' @ [newline] @
     ''  '' @ [dquote] @ ''a.b'' @ [dquote] @ '': z.boolean().optional(),'' @ [newline] @
     ''  $ok_1: z.boolean().optional(),'' @ [newline] @
     ''  '' @ [dquote] @ ''1st'' @ [dquote] @ '': z.boolean().optional(),'' @ [newline] @
     ''  '' @ [dquote] @ ''x-y'' @ [dquote] @ '': z.boolean().optional()'' @ [newline] @
     ''})''"
proof -
  let ?b = "JObj [(''type'', JStr ''boolean'')]"
  let ?sch = "JSON_parse odd_names_doc"
  let ?members = "[(''type'', JStr ''object''), (''properties'', JObj odd_names_members)]"
  let ?P = "[(''0'', ?b), (''7'', ?b), (''a.b'', ?b), (''$ok_1'', ?b), (''1st'', ?b), (''x-y'', ?b)]"
  have n: "distinct (map fst odd_names_members)"
          "map fst odd_names_members = [''a.b'', ''7'', ''$ok_1'', ''1st'', ''0'', ''x-y'']"
    by code_simp+
  have h1: "?sch = JSON_parse (JObj ?members)"
    by (simp only: odd_names_doc_def)
  have h2: "map_of (rev ?members) ''properties'' = Some (JObj odd_names_members)"
    by simp
  have h3: "?P = own_property_order
                   (fold (\<lambda>kv. map_set (fst kv) (JSON_parse (snd kv))) odd_names_members [])"
    by code_simp
  have h4: "schema_node ?sch"
    by code_simp
  have h5: "registry_name None (stringify ?sch) = None"
    by (simp add: registry_name_def)
  have h6: "get_field ?sch ''type'' = Some (JStr ''object'')"
    by code_simp
  have h7: "enum_of ?sch = None"
    by code_simp
  have v: "\<not> isValidIdentifier ''a.b''" "isValidIdentifier ''$ok_1''"
          "\<not> isValidIdentifier ''1st''" "\<not> isValidIdentifier ''x-y''"
          "\<not> isValidIdentifier ''0''" "\<not> isValidIdentifier ''7''"
    by code_simp+
  have q: "quote_str ''a.b'' = [dquote] @ ''a.b'' @ [dquote]"
          "quote_str ''1st'' = [dquote] @ ''1st'' @ [dquote]"
          "quote_str ''x-y'' = [dquote] @ ''x-y'' @ [dquote]"
          "quote_str ''0'' = [dquote] @ ''0'' @ [dquote]"
          "quote_str ''7'' = [dquote] @ ''7'' @ [dquote]"
    by code_simp+
  have t: "jsonSchemaToZod ?b (Suc 0) None (Some f) = ''z.boolean()''" for f
    by (subst jsonSchemaToZod.simps)
       (simp add: registry_name_def nonNullTypes_def type_tags_def get_field_def enum_of_def
                  describe_suffix_def truthy_string_def)
  have m: "optional_marker ?sch k = ''.optional()''" for k
  proof -
    have "get_field ?sch ''required'' = None"
      by code_simp
    then show ?thesis
      by (simp add: optional_marker_def isRequired_def)
  qed
  have d: "describe_suffix ?sch = []"
    by code_simp
  from property_names_bare_or_quoted [OF h1 h2 h3 h4 h5 h6 h7, of 0 None]
  have "jsonSchemaToZod ?sch 0 None None =
     ''z.object({'' @ [newline] @
     join ('','' @ [newline])
       (map (\<lambda>kv. concat (replicate 0 ''  '') @ ''  '' @
                   (if isValidIdentifier (fst kv) then fst kv else quote_str (fst kv)) @ '': '' @
                   jsonSchemaToZod (snd kv) (0 + 1) None (Some (fst kv)) @
                   optional_marker ?sch (fst kv))
            ?P) @
     [newline] @ concat (replicate 0 ''  '') @ ''})'' @ describe_suffix ?sch"
    by (rule conjunct1)
  then have "jsonSchemaToZod ?sch 0 None None =
     ''z.object({'' @ [newline] @
     ''  '' @ [dquote] @ ''0'' @ [dquote] @ '': z.boolean().optional(),'' @ [newline] @
     ''  '' @ [dquote] @ ''7'' @ [dquote] @ '': z.boolean().optional(),'' @ [newline] @
     ''  '' @ [dquote] @ ''a.b'' @ [dquote] @ '': z.boolean().optional(),'' @ [newline] @
     ''  $ok_1: z.boolean().optional(),'' @ [newline] @
     ''  '' @ [dquote] @ ''1st'' @ [dquote] @ '': z.boolean().optional(),'' @ [newline] @
     ''  '' @ [dquote] @ ''x-y'' @ [dquote] @ '': z.boolean().optional()'' @ [newline] @
     ''})''"
    by (simp add: v q t m d del: JSON_parse.simps)
  with n show ?thesis
    by simp
qed

text \<open>
  C10, as the spec states it, fails on \<open>index_names_doc\<close>: the names are declared in the
  order \<^verbatim>\<open>b\<close>, \<^verbatim>\<open>10\<close>, \<^verbatim>\<open>2\<close>, \<^verbatim>\<open>-1\<close> and written in the order \<^verbatim>\<open>2\<close>, \<^verbatim>\<open>10\<close>, \<^verbatim>\<open>b\<close>,
  \<^verbatim>\<open>-1\<close>. It fails as well on a node with an enum list, which has no lines at all.
\<close>

theorem index_names_written_first:
  "map fst index_names_members = [''b'', ''10'', ''2'', ''-1''] \<and>
   jsonSchemaToZod (JSON_parse index_names_doc) 0 None None =
     ''z.object({'' @ [newline] @
     ''  '' @ [dquote] @ ''2'' @ [dquote] @ '': z.boolean().optional(),'' @ [newline] @
     ''  '' @ [dquote] @ ''10'' @ [dquote] @ '': z.boolean().optional(),'' @ [newline] @
     ''  b: z.boolean().optional(),'' @ [newline] @
     ''  '' @ [dquote] @ ''-1'' @ [dquote] @ '': z.boolean().optional()'' @ [newline] @
     ''})'' \<and>
   jsonSchemaToZod (JSON_parse enum_object) 0 None None = ''z.enum([1])''"
  by code_simp

section \<open>Two runs on one document\<close>






text \<open>
  Without the promise of stability the output is not determined: for \<open>collision_doc\<close>
  the entries of \<^verbatim>\<open>.a\<close> and \<^verbatim>\<open>.b\<close> have the same depth, and a sort that may exchange
  them gives two different texts.
\<close>

lemma unstable_sort_two_outputs:
  "\<exists>S T. unstable_sort_result (discovered collision_doc) S \<and>
         unstable_sort_result (discovered collision_doc) T \<and>
         outputCode_from ''c.json'' collision_doc S \<noteq> outputCode_from ''c.json'' collision_doc T"
proof -
  let ?S = "sortSubSchemas (discovered collision_doc)"
  let ?T = "[?S ! 0, ?S ! 2, ?S ! 1]"
  have "unstable_sort_result (discovered collision_doc) ?S"
    by code_simp
  moreover have "unstable_sort_result (discovered collision_doc) ?T"
    by code_simp
  moreover have "outputCode_from ''c.json'' collision_doc ?S \<noteq>
                 outputCode_from ''c.json'' collision_doc ?T"
    by code_simp
  ultimately show ?thesis
    by blast
qed



section \<open>Additional properties allowed as a boolean\<close>

text \<open>
  C3. For \<^verbatim>\<open>{"type":"object","additionalProperties":true}\<close> the translator writes
  \<^verbatim>\<open>z.record(z.string())\<close>. The argument of \<^verbatim>\<open>z.record\<close> is the validator of the values:
  the branch above it writes the translation of the additional-properties schema there,
  so the same text comes out for \<^verbatim>\<open>"additionalProperties":{"type":"string"}\<close>, whose values
  are strings, while the schema \<^verbatim>\<open>{}\<close> that accepts any value gives
  \<^verbatim>\<open>z.record(z.any())\<close>, as an array without an element schema gives
  \<^verbatim>\<open>z.array(z.any())\<close>.
\<close>

theorem additionalProperties_true_gives_string_values:
  "jsonSchemaToZod (JObj [(''type'', JStr ''object''), (''additionalProperties'', JBool True)])
     0 None None = ''z.record(z.string())'' \<and>
   jsonSchemaToZod (JObj [(''type'', JStr ''object''),
                          (''additionalProperties'', JObj [(''type'', JStr ''string'')])])
     0 None None = ''z.record(z.string())'' \<and>
   jsonSchemaToZod (JObj [(''type'', JStr ''object''), (''additionalProperties'', JObj [])])
     0 None None = ''z.record(z.any())'' \<and>
   jsonSchemaToZod (JObj [(''type'', JStr ''array'')]) 0 None None = ''z.array(z.any())''"
  by code_simp

section \<open>Marking signatures as visited\<close>

lemma walk_object:
  assumes "get_field sch ''type'' = Some (JStr ''object'')" and "properties_of sch = Some P"
  shows "findSubSchemas sch currentPath st =
         fold (\<lambda>kv. findSubSchemas (snd kv) (currentPath @ ''.'' @ fst kv)) P
              (register sch currentPath st)"
  using assms by (subst findSubSchemas.simps) simp

text \<open>
  C2, as the code has it. When the walk meets an object-typed node with a properties
  mapping at a path of more than one segment and the node's signature is not yet
  visited, the signature is added to the visited set exactly when a new entry is
  registered, that is, when no entry discovered so far carries the candidate name. When
  the candidate name is taken, the discovery map and the visited set both stay as they
  were. The walk then goes on into the properties from that state.
\<close>

theorem visited_exactly_when_registered:
  assumes "get_field sch ''type'' = Some (JStr ''object'')"
    and "properties_of sch = Some P"
    and "1 < path_depth currentPath"
    and "stringify sch \<notin> snd st"
  shows "findSubSchemas sch currentPath st =
           fold (\<lambda>kv. findSubSchemas (snd kv) (currentPath @ ''.'' @ fst kv)) P
                (register sch currentPath st) \<and>
         register sch currentPath st =
           (if list_ex (\<lambda>s. name s = generateSchemaName currentPath) (map snd (fst st)) then st
            else (map_set (stringify sch)
                    \<lparr>name = generateSchemaName currentPath, schema = sch, path = currentPath\<rparr>
                    (fst st),
                  insert (stringify sch) (snd st))) \<and>
         (stringify sch \<in> snd (register sch currentPath st)) =
           (\<not> list_ex (\<lambda>s. name s = generateSchemaName currentPath) (map snd (fst st)))"
proof -
  from assms(3) have dot: "str_includes currentPath ''.''"
    by (rule iffD1 [OF more_than_one_segment])
  have reg: "register sch currentPath st =
           (if list_ex (\<lambda>s. name s = generateSchemaName currentPath) (map snd (fst st)) then st
            else (map_set (stringify sch)
                    \<lparr>name = generateSchemaName currentPath, schema = sch, path = currentPath\<rparr>
                    (fst st),
                  insert (stringify sch) (snd st)))"
    using assms(4) dot by (simp add: register_def Let_def)
  have "(stringify sch \<in> snd (register sch currentPath st)) =
           (\<not> list_ex (\<lambda>s. name s = generateSchemaName currentPath) (map snd (fst st)))"
    using assms(4) by (simp add: reg)
  with reg walk_object [OF assms(1,2)] show ?thesis
    by simp
qed

text \<open>
  The walk over \<open>collision_doc\<close> arrives at \<^verbatim>\<open>.b.left\<close> with \<^verbatim>\<open>LeftSchema\<close> taken by
  \<^verbatim>\<open>.a.left\<close>: the visit changes nothing. At \<^verbatim>\<open>.a.left\<close> the name was free: the visit
  registered the entry and marked the signature.
\<close>

theorem visited_exactly_when_registered_witness:
  "register y_leaf ''.b.left'' before_b_left = before_b_left \<and>
   stringify y_leaf \<notin> snd (register y_leaf ''.b.left'' before_b_left) \<and>
   stringify x_leaf \<in> snd (register x_leaf ''.a.left''
      (register (object_with [(''left'', x_leaf)]) ''.a'' ([], {})))"
proof -
  let ?a = "register (object_with [(''left'', x_leaf)]) ''.a'' ([], {})"
  have h1: "get_field y_leaf ''type'' = Some (JStr ''object'')"
    by (simp add: y_leaf_def object_with_def get_field_def)
  have h2: "properties_of y_leaf = Some [(''y'', JObj [(''type'', JStr ''number'')])]"
    by (simp add: y_leaf_def object_with_def properties_of_def get_field_def)
  have h3: "1 < path_depth ''.b.left''"
    by code_simp
  have h4: "stringify y_leaf \<notin> snd before_b_left"
    by code_simp
  have taken: "list_ex (\<lambda>s. name s = generateSchemaName ''.b.left'') (map snd (fst before_b_left))"
    by code_simp
  have g1: "get_field x_leaf ''type'' = Some (JStr ''object'')"
    by (simp add: x_leaf_def object_with_def get_field_def)
  have g2: "properties_of x_leaf = Some [(''x'', JObj [(''type'', JStr ''string'')])]"
    by (simp add: x_leaf_def object_with_def properties_of_def get_field_def)
  have g3: "1 < path_depth ''.a.left''"
    by code_simp
  have g4: "stringify x_leaf \<notin> snd ?a"
    by code_simp
  have free: "\<not> list_ex (\<lambda>s. name s = generateSchemaName ''.a.left'') (map snd (fst ?a))"
    by code_simp
  from visited_exactly_when_registered [OF h1 h2 h3 h4] taken
  have A: "register y_leaf ''.b.left'' before_b_left = before_b_left"
    by simp
  from visited_exactly_when_registered [OF g1 g2 g3 g4] free
  have B: "stringify x_leaf \<in> snd (register x_leaf ''.a.left'' ?a)"
    by simp
  from A B h4 show ?thesis
    by simp
qed

text \<open>
  C2, as the spec states it, fails on \<open>collision_doc\<close>. The walk arrives at
  \<^verbatim>\<open>.b.left\<close> in the state \<open>before_b_left\<close>; the node there is an object with
  properties, its path has three segments and its signature is not visited, yet the
  signature is in the visited set neither after the visit nor at the end of the walk.
\<close>

theorem visited_not_marked_on_name_collision:
  "findSubSchemas collision_doc [] ([], {}) = findSubSchemas y_leaf ''.b.left'' before_b_left \<and>
   get_field y_leaf ''type'' = Some (JStr ''object'') \<and>
   properties_of y_leaf = Some [(''y'', JObj [(''type'', JStr ''number'')])] \<and>
   1 < path_depth ''.b.left'' \<and>
   stringify y_leaf \<notin> snd before_b_left \<and>
   stringify y_leaf \<notin> snd (register y_leaf ''.b.left'' before_b_left) \<and>
   stringify y_leaf \<notin> snd (findSubSchemas collision_doc [] ([], {}))"
  by code_simp

section \<open>What the walk leaves behind\<close>

lemma named_or_registered_mono:
  "named_or_registered v m \<Longrightarrow> set m \<subseteq> set m' \<Longrightarrow> named_or_registered v m'"
  unfolding named_or_registered_def by blast

lemma walk_result_refl: "walk_state st \<Longrightarrow> walk_result [] st st"
  by (simp add: walk_result_def)

lemma walk_result_trans:
  assumes "walk_result V st st'" and "walk_result W st' st''"
  shows "walk_result (V @ W) st st''"
proof -
  from assms have sub: "set (fst st) \<subseteq> set (fst st')" "set (fst st') \<subseteq> set (fst st'')"
    by (simp_all add: walk_result_def)
  have 1: "walk_state st''"
    using assms(2) by (simp add: walk_result_def)
  have 2: "set (fst st) \<subseteq> set (fst st'')"
    using sub by blast
  have 3: "named_or_registered v (fst st'')" if "v \<in> set (V @ W)" "1 < path_depth (snd v)" for v
  proof (cases "v \<in> set V")
    case True
    with assms(1) that(2) have "named_or_registered v (fst st')"
      by (simp add: walk_result_def)
    then show ?thesis
      using sub(2) by (rule named_or_registered_mono)
  next
    case False
    with that have "v \<in> set W"
      by simp
    with assms(2) that(2) show ?thesis
      by (simp add: walk_result_def)
  qed
  have 4: "e \<in> set (fst st) \<or> (\<exists>v \<in> set (V @ W). 1 < path_depth (snd v) \<and> e = entry_of v)"
    if "e \<in> set (fst st'')" for e
  proof -
    from assms(2) that
    have "e \<in> set (fst st') \<or> (\<exists>v \<in> set W. 1 < path_depth (snd v) \<and> e = entry_of v)"
      unfolding walk_result_def by blast
    moreover from assms(1)
    have "e \<in> set (fst st) \<or> (\<exists>v \<in> set V. 1 < path_depth (snd v) \<and> e = entry_of v)"
      if "e \<in> set (fst st')"
      using that unfolding walk_result_def by blast
    ultimately show ?thesis
      by auto
  qed
  from 1 2 3 4 show ?thesis
    unfolding walk_result_def by blast
qed

text \<open>One visit: lines 61-69.\<close>

lemma register_result:
  assumes "walk_state st"
  shows "walk_result [(n, p)] st (register n p st)"
proof (cases "stringify n \<notin> snd st \<and> str_includes p ''.''")
  case False
  then have same: "register n p st = st"
    by (auto simp: register_def Let_def)
  have "named_or_registered (n, p) (fst st)" if "1 < path_depth p"
  proof -
    from that have "str_includes p ''.''"
      by (rule iffD1 [OF more_than_one_segment])
    with False assms have "stringify n \<in> fst ` set (fst st)"
      by (simp add: walk_state_def)
    then show ?thesis
      by (simp add: named_or_registered_def)
  qed
  with assms show ?thesis
    by (simp add: walk_result_def same)
next
  case True
  then have deep: "1 < path_depth p"
    by (intro iffD2 [OF more_than_one_segment]) simp
  show ?thesis
  proof (cases "list_ex (\<lambda>s. name s = generateSchemaName p) (map snd (fst st))")
    case taken: True
    with True have same: "register n p st = st"
      by (simp add: register_def Let_def)
    from taken obtain e where "e \<in> set (fst st)" and "name (snd e) = generateSchemaName p"
      by (auto simp: list_ex_iff)
    then have "generateSchemaName p \<in> (\<lambda>e. name (snd e)) ` set (fst st)"
      by (metis (mono_tags, lifting) image_eqI)
    then have "named_or_registered (n, p) (fst st)"
      by (simp add: named_or_registered_def)
    with assms show ?thesis
      by (simp add: walk_result_def same)
  next
    case free: False
    let ?e = "entry_of (n, p)"
    from True assms have new: "stringify n \<notin> fst ` set (fst st)"
      by (simp add: walk_state_def)
    from True free have reg: "register n p st = (fst st @ [?e], insert (stringify n) (snd st))"
      using map_set_new [OF new] by (simp add: register_def Let_def entry_of_def)
    have "named_or_registered (n, p) (fst st @ [?e])"
      by (simp add: named_or_registered_def entry_of_def)
    with assms deep show ?thesis
      by (auto simp: walk_result_def reg walk_state_def entry_of_def)
  qed
qed

lemma fold_result:
  fixes f :: "'a \<Rightarrow> registry \<times> string set \<Rightarrow> registry \<times> string set"
  assumes "\<And>kv st. kv \<in> set ps \<Longrightarrow> walk_state st \<Longrightarrow> walk_result (V kv) st (f kv st)"
    and "walk_state st"
  shows "walk_result (concat (map V ps)) st (fold f ps st)"
  using assms
proof (induction ps arbitrary: st)
  case Nil
  then show ?case
    by (simp add: walk_result_refl)
next
  case (Cons kv ps)
  have first: "walk_result (V kv) st (f kv st)"
    by (rule Cons.prems(1)) (simp_all add: Cons.prems(2))
  then have "walk_state (f kv st)"
    by (simp add: walk_result_def)
  then have "walk_result (concat (map V ps)) (f kv st) (fold f ps (f kv st))"
    by (intro Cons.IH Cons.prems(1)) simp_all
  with first have "walk_result (V kv @ concat (map V ps)) st (fold f ps (f kv st))"
    by (rule walk_result_trans)
  then show ?case
    by simp
qed

text \<open>The whole walk below a node.\<close>

lemma findSubSchemas_result:
  "walk_state st \<Longrightarrow> walk_result (visits sch p) st (findSubSchemas sch p st)"
proof (induction sch p st rule: findSubSchemas.induct)
  case (1 sch currentPath st)
  show ?case
  proof (cases "get_field sch ''type'' = Some (JStr ''object'') \<and> properties_of sch \<noteq> None")
    case True
    then obtain ps where ps: "properties_of sch = Some ps"
      by auto
    let ?V = "\<lambda>kv :: string \<times> json. visits (snd kv) (currentPath @ ''.'' @ fst kv)"
    let ?f = "\<lambda>kv :: string \<times> json. findSubSchemas (snd kv) (currentPath @ ''.'' @ fst kv)"
    have here: "walk_result [(sch, currentPath)] st (register sch currentPath st)"
      using "1.prems" by (rule register_result)
    then have "walk_state (register sch currentPath st)"
      by (simp add: walk_result_def)
    have below: "walk_result (concat (map ?V ps)) (register sch currentPath st)
                   (fold ?f ps (register sch currentPath st))"
    proof (rule fold_result)
      show "walk_state (register sch currentPath st)"
        by fact
    next
      fix kv :: "string \<times> json" and st' :: "registry \<times> string set"
      assume "kv \<in> set ps" and "walk_state st'"
      with "1.IH"(1) [of kv st'] True ps
      show "walk_result (?V kv) st' (?f kv st')"
        by simp
    qed
    from walk_result_trans [OF here below]
    have "walk_result ((sch, currentPath) # concat (map ?V ps)) st
            (fold ?f ps (register sch currentPath st))"
      by simp
    moreover from True ps have "visits sch currentPath = (sch, currentPath) # concat (map ?V ps)"
      by (subst visits.simps) simp
    moreover from True ps have "findSubSchemas sch currentPath st =
            fold ?f ps (register sch currentPath st)"
      by (subst findSubSchemas.simps) simp
    ultimately show ?thesis
      by simp
  next
    case False
    show ?thesis
    proof (cases "get_field sch ''type'' = Some (JStr ''array'') \<and> items_of sch \<noteq> None")
      case True
      from False True have "visits sch currentPath =
                            visits (the (items_of sch)) (currentPath @ ''.items'')"
        by (subst visits.simps) simp
      moreover from False True have "findSubSchemas sch currentPath st =
             findSubSchemas (the (items_of sch)) (currentPath @ ''.items'') st"
        by (subst findSubSchemas.simps) simp
      ultimately show ?thesis
        using False True "1.IH"(2) "1.prems" by simp
    next
      case no: False
      from False no have "visits sch currentPath = []"
        by (subst visits.simps) auto
      moreover from False no have "findSubSchemas sch currentPath st = st"
        by (subst findSubSchemas.simps) auto
      ultimately show ?thesis
        using "1.prems" by (simp add: walk_result_refl)
    qed
  qed
qed

lemma discovered_result: "walk_result (visits doc []) ([], {}) (discovered doc, fst ` set (discovered doc))"
proof -
  have "walk_state ([], {})"
    by (simp add: walk_state_def)
  then have r: "walk_result (visits doc []) ([], {}) (findSubSchemas doc [] ([], {}))"
    by (rule findSubSchemas_result)
  then have "walk_state (findSubSchemas doc [] ([], {}))"
    by (simp add: walk_result_def)
  then have "findSubSchemas doc [] ([], {}) = (discovered doc, fst ` set (discovered doc))"
    by (simp add: walk_state_def discovered_def prod_eq_iff)
  with r show ?thesis
    by simp
qed

section \<open>One declaration for each registered signature\<close>

lemma declare_fold:
  "distinct (map fst (finished @ todo)) \<Longrightarrow>
   fold declare_step todo (code, finished) =
     (code @ concat (map (\<lambda>i. ''const '' @ name (snd (todo ! i)) @ '' = '' @
                              jsonSchemaToZod (schema (snd (todo ! i))) 0
                                (Some (finished @ take i todo)) None @
                              '';'' @ [newline, newline])
                         [0..<length todo]),
      finished @ todo)"
proof (induction todo arbitrary: code finished)
  case Nil
  then show ?case by simp
next
  case (Cons e todo)
  from Cons.prems have new: "fst e \<notin> fst ` set finished"
    by auto
  from Cons.prems have d: "distinct (map fst ((finished @ [e]) @ todo))"
    by simp
  have step: "declare_step e (code, finished) =
     (code @ ''const '' @ name (snd e) @ '' = '' @
        jsonSchemaToZod (schema (snd e)) 0 (Some finished) None @ '';'' @ [newline, newline],
      finished @ [e])"
    using map_set_new [OF new, of "snd e"] by (simp add: declare_step_def Let_def)
  have upt: "[0..<length (e # todo)] = 0 # map Suc [0..<length todo]"
    by (simp add: upt_conv_Cons map_Suc_upt del: upt_Suc)
  show ?case
    by (simp only: fold_simps step Cons.IH [OF d] upt)
       (simp add: comp_def)
qed

lemma declared_eq:
  "declared doc =
     (concat (map (\<lambda>i. ''const '' @ name (snd (sortSubSchemas (discovered doc) ! i)) @ '' = '' @
                        jsonSchemaToZod (schema (snd (sortSubSchemas (discovered doc) ! i))) 0
                          (Some (take i (sortSubSchemas (discovered doc)))) None @
                        '';'' @ [newline, newline])
                  [0..<length (sortSubSchemas (discovered doc))]),
      sortSubSchemas (discovered doc))"
proof -
  have "distinct (map fst ([] @ sortSubSchemas (discovered doc)))"
    using sorted_entries [OF discovered_entries, of doc] by (simp add: sub_schema_entries_def)
  from declare_fold [OF this, of "[]"] show ?thesis
    by (simp add: declared_def)
qed

lemma bound_in_prefix:
  assumes "distinct (map fst S)" and "j < i" and "i \<le> length S"
  shows "map_of (take i S) (fst (S ! j)) = Some (snd (S ! j))"
proof -
  from assms have "distinct (map fst (take i S))"
    by (simp add: distinct_take take_map [symmetric])
  moreover from assms have "(fst (S ! j), snd (S ! j)) \<in> set (take i S)"
    by (metis in_set_conv_nth length_take min.absorb2 nth_take order_less_le_trans prod.collapse min.commute)
  ultimately show ?thesis
    by (rule map_of_is_SomeI)
qed

lemma deepest_first:
  assumes "i \<le> j" and "j < length (sortSubSchemas m)"
  shows "path_depth (path (snd (sortSubSchemas m ! j))) \<le>
         path_depth (path (snd (sortSubSchemas m ! i)))"
proof -
  let ?f = "\<lambda>e :: string \<times> SubSchema. - int (path_depth (path (snd e)))"
  have "sorted (map ?f (sortSubSchemas m))"
    unfolding sortSubSchemas_def by (rule sorted_sort_key)
  with assms have "map ?f (sortSubSchemas m) ! i \<le> map ?f (sortSubSchemas m) ! j"
    by (simp add: sorted_iff_nth_mono del: nth_map)
  with assms show ?thesis
    by simp
qed

text \<open>
  C1, as the code has it. Let \<open>S\<close> be the discovered entries in the order of the sort,
  the deeper path first. Every entry of \<open>S\<close> is stored under the signature of its own
  node, an object-typed node with properties, and no two entries have the same
  signature. The entries come from the visits of the walk at paths of more than one
  segment: each entry holds the node, the path and the candidate name of such a visit;
  and every such visit is accounted for: at the end of discovery the signature of the
  visited node is registered (from this visit or from another one, before or after it),
  or else an entry carries the candidate name of the visit. The declarations are one
  text \<^verbatim>\<open>const name = ...;\<close> for each entry of \<open>S\<close>, in that order, the entry at position
  \<open>i\<close> translated against the entries before it; the registry of the root translation
  is \<open>S\<close> itself. Wherever the translator meets a node with the signature of the entry at
  position \<open>j\<close>, in the root (\<open>i = length S\<close>) or in a declaration at a later position
  \<open>i > j\<close>, it writes the name of that entry.
\<close>

theorem one_declaration_per_registered_signature:
  fixes doc :: json
  defines "S \<equiv> sortSubSchemas (discovered doc)"
  assumes "schema_node doc"
  shows "sub_schema_entries S \<and>
         set S = set (discovered doc) \<and>
         (\<forall>e \<in> set S. \<exists>v \<in> set (visits doc []).
            1 < path_depth (snd v) \<and>
            e = (stringify (fst v),
                 \<lparr>name = generateSchemaName (snd v), schema = fst v, path = snd v\<rparr>)) \<and>
         (\<forall>v \<in> set (visits doc []).
            1 < path_depth (snd v) \<longrightarrow>
            stringify (fst v) \<in> fst ` set S \<or>
            generateSchemaName (snd v) \<in> (\<lambda>e. name (snd e)) ` set S) \<and>
         (\<forall>i j. i \<le> j \<and> j < length S \<longrightarrow>
            path_depth (path (snd (S ! j))) \<le> path_depth (path (snd (S ! i)))) \<and>
         fst (declared doc) =
           concat (map (\<lambda>i. ''const '' @ name (snd (S ! i)) @ '' = '' @
                             jsonSchemaToZod (schema (snd (S ! i))) 0 (Some (take i S)) None @
                             '';'' @ [newline, newline])
                       [0..<length S]) \<and>
         snd (declared doc) = S \<and>
         (\<forall>j i node depth fieldName.
            j < i \<and> i \<le> length S \<and> stringify node = fst (S ! j) \<longrightarrow>
            jsonSchemaToZod node depth (Some (take i S)) fieldName = name (snd (S ! j)))"
proof -
  have k: "sub_schema_entries S"
    unfolding S_def by (rule sorted_entries [OF discovered_entries])
  then have d: "distinct (map fst S)"
    by (simp add: sub_schema_entries_def)
  have p: "set S = set (discovered doc)"
    by (simp add: S_def sortSubSchemas_def)
  have w: "walk_result (visits doc []) ([], {}) (discovered doc, fst ` set (discovered doc))"
    by (rule discovered_result)
  have v1: "\<exists>v \<in> set (visits doc []).
            1 < path_depth (snd v) \<and>
            e = (stringify (fst v),
                 \<lparr>name = generateSchemaName (snd v), schema = fst v, path = snd v\<rparr>)"
    if "e \<in> set S" for e
    using w that unfolding walk_result_def p entry_of_def by auto
  have v2: "stringify (fst v) \<in> fst ` set S \<or>
            generateSchemaName (snd v) \<in> (\<lambda>e. name (snd e)) ` set S"
    if "v \<in> set (visits doc [])" "1 < path_depth (snd v)" for v
  proof -
    from w that have "named_or_registered v (discovered doc)"
      unfolding walk_result_def by simp
    then show ?thesis
      by (simp only: named_or_registered_def p)
  qed
  have o: "path_depth (path (snd (S ! j))) \<le> path_depth (path (snd (S ! i)))"
    if "i \<le> j" "j < length S" for i j
    using that unfolding S_def by (rule deepest_first)
  have r: "jsonSchemaToZod node depth (Some (take i S)) fieldName = name (snd (S ! j))"
    if "j < i" "i \<le> length S" "stringify node = fst (S ! j)" for j i node depth fieldName
    using bound_in_prefix [OF d that(1,2)] that(3)
    by (intro substituted) (simp add: registry_name_def)
  have c: "fst (declared doc) =
           concat (map (\<lambda>i. ''const '' @ name (snd (S ! i)) @ '' = '' @
                             jsonSchemaToZod (schema (snd (S ! i))) 0 (Some (take i S)) None @
                             '';'' @ [newline, newline])
                       [0..<length S])"
    and s: "snd (declared doc) = S"
    by (simp_all add: declared_eq [of doc, folded S_def])
  from k p v1 v2 o c s r show ?thesis
    by blast
qed

theorem one_declaration_per_registered_signature_witness:
  "schema_node reuse_doc \<and>
   jsonSchemaToZod x_leaf 1 (Some (snd (declared reuse_doc))) (Some ''a'') = ''ASchema'' \<and>
   schema_node late_doc \<and>
   (y_leaf, ''.b.a'') \<in> set (visits late_doc []) \<and>
   1 < path_depth ''.b.a'' \<and>
   (stringify y_leaf \<in> fst ` set (sortSubSchemas (discovered late_doc)) \<or>
    generateSchemaName ''.b.a'' \<in>
      (\<lambda>e. name (snd e)) ` set (sortSubSchemas (discovered late_doc)))"
proof -
  let ?S = "sortSubSchemas (discovered reuse_doc)"
  have h: "schema_node reuse_doc"
    by code_simp
  have len: "length ?S = 4"
    by code_simp
  have key: "stringify x_leaf = fst (?S ! 1)"
    by code_simp
  have nm: "name (snd (?S ! 1)) = ''ASchema''"
    by code_simp
  from one_declaration_per_registered_signature [OF h]
  have reg: "snd (declared reuse_doc) = ?S"
    and ref: "\<And>j i node depth fieldName.
            j < i \<and> i \<le> length ?S \<and> stringify node = fst (?S ! j) \<Longrightarrow>
            jsonSchemaToZod node depth (Some (take i ?S)) fieldName = name (snd (?S ! j))"
    by blast+
  from ref [of 1 4 x_leaf 1 "Some ''a''"] len key nm
  have "jsonSchemaToZod x_leaf 1 (Some (take 4 ?S)) (Some ''a'') = ''ASchema''"
    by simp
  with len reg have A: "jsonSchemaToZod x_leaf 1 (Some (snd (declared reuse_doc))) (Some ''a'') =
                        ''ASchema''"
    by simp
  have g: "schema_node late_doc"
    by code_simp
  have vis: "(y_leaf, ''.b.a'') \<in> set (visits late_doc [])"
    by code_simp
  have deep: "1 < path_depth ''.b.a''"
    by code_simp
  from one_declaration_per_registered_signature [OF g]
  have "\<forall>v \<in> set (visits late_doc []).
            1 < path_depth (snd v) \<longrightarrow>
            stringify (fst v) \<in> fst ` set (sortSubSchemas (discovered late_doc)) \<or>
            generateSchemaName (snd v) \<in>
              (\<lambda>e. name (snd e)) ` set (sortSubSchemas (discovered late_doc))"
    by blast
  from this [rule_format, OF vis] deep
  have B: "stringify y_leaf \<in> fst ` set (sortSubSchemas (discovered late_doc)) \<or>
           generateSchemaName ''.b.a'' \<in>
             (\<lambda>e. name (snd e)) ` set (sortSubSchemas (discovered late_doc))"
    by simp
  from h A g vis deep B show ?thesis
    by (intro conjI)
qed

text \<open>
  C1, as the spec states it, fails on \<open>reuse_doc\<close>. The shape \<open>x_leaf\<close> is declared once, as
  \<^verbatim>\<open>ASchema\<close> from its first path \<^verbatim>\<open>.a\<close>, but the declaration of \<^verbatim>\<open>CSchema\<close> (path
  \<^verbatim>\<open>.b.c\<close>, deeper, so written first) expands the occurrence at \<^verbatim>\<open>.b.c.d\<close> inline. The
  shape \<open>y_leaf\<close> stands at \<^verbatim>\<open>.e.a\<close> and \<^verbatim>\<open>.e.A\<close>, both with the candidate name
  \<^verbatim>\<open>ASchema\<close> that is taken, and nowhere else: in this document it has no declaration and
  both occurrences are expanded inline in \<^verbatim>\<open>ESchema\<close>.
\<close>

theorem shared_signature_expanded_inline:
  "map (\<lambda>e. (name (snd e), path (snd e))) (snd (declared reuse_doc)) =
     [(''CSchema'', ''.b.c''), (''ASchema'', ''.a''), (''BSchema'', ''.b''), (''ESchema'', ''.e'')] \<and>
   stringify x_leaf \<in> fst ` set (snd (declared reuse_doc)) \<and>
   stringify y_leaf \<notin> fst ` set (snd (declared reuse_doc)) \<and>
   fst (declared reuse_doc) =
     ''const CSchema = z.object({'' @ [newline] @
     ''  d: z.object({'' @ [newline] @
     ''    x: z.string().optional()'' @ [newline] @
     ''  }).optional()'' @ [newline] @
     ''});'' @ [newline, newline] @
     ''const ASchema = z.object({'' @ [newline] @
     ''  x: z.string().optional()'' @ [newline] @
     ''});'' @ [newline, newline] @
     ''const BSchema = z.object({'' @ [newline] @
     ''  c: CSchema.optional()'' @ [newline] @
     ''});'' @ [newline, newline] @
     ''const ESchema = z.object({'' @ [newline] @
     ''  a: z.object({'' @ [newline] @
     ''    y: z.number().optional()'' @ [newline] @
     ''  }).optional(),'' @ [newline] @
     ''  A: z.object({'' @ [newline] @
     ''    y: z.number().optional()'' @ [newline] @
     ''  }).optional()'' @ [newline] @
     ''});'' @ [newline, newline]"
  by code_simp

end
